theory Spec2Isabelle
  imports Complex_Main
begin

section \<open>Data model of InitializationScreen.tsx\<close>

text \<open>
  \<^verbatim>\<open>const MODULES = ["Speech System", "Voice Engine", "Knowledge Core", "Vision System"] as const;
  type ModuleName = typeof MODULES[number];\<close>
\<close>

datatype ModuleName = SpeechSystem | VoiceEngine | KnowledgeCore | VisionSystem

definition MODULES :: "ModuleName list" where
  "MODULES = [SpeechSystem, VoiceEngine, KnowledgeCore, VisionSystem]"

text \<open>
  The value of the \<^verbatim>\<open>modules\<close> field is a JavaScript object. React compares it in
  dependency arrays by identity, so the model keeps the identity (\<open>ref\<close>) beside the
  contents (\<open>entries\<close>, a partial map: a key of the object is a key with \<open>Some\<close>).
  By its type, \<^verbatim>\<open>Partial<Record<ModuleName, boolean>>\<close>, the object has no keys but
  module names, and the value of a key that is there is a boolean.
\<close>

record modules_obj =
  ref :: nat
  entries :: "ModuleName \<Rightarrow> bool option"

text \<open>
  \<^verbatim>\<open>export type InitProgress = { systemReady: boolean; percent?: number;
      modules?: Partial<Record<ModuleName, boolean>>; message?: string; };\<close>
  Numbers are modelled as reals (no NaN, no infinities, no rounding).
\<close>

record InitProgress =
  systemReady :: bool
  percent :: "real option"
  modules :: "modules_obj option"
  message :: "string option"

text \<open>\<^verbatim>\<open>const PHASE = { AWAKENING: 1, ACTIVATION: 2, MODULES: 3, STABLE: 4 } as const;\<close>\<close>

datatype Phase = PHASE_AWAKENING | PHASE_ACTIVATION | PHASE_MODULES | PHASE_STABLE

fun phase_num :: "Phase \<Rightarrow> nat" where
  "phase_num PHASE_AWAKENING = 1"
| "phase_num PHASE_ACTIVATION = 2"
| "phase_num PHASE_MODULES = 3"
| "phase_num PHASE_STABLE = 4"

text \<open>
  What a pending \<^verbatim>\<open>setTimeout\<close> does when it fires:
  \<^item> \<open>GlitchClear\<close>: \<^verbatim>\<open>() => setGlitching(false)\<close> (delays 200, 300 and 500);
  \<^item> \<open>AmbienceStart\<close>: \<^verbatim>\<open>() => ambience.play()\<close> (delay 400);
  \<^item> \<open>Hold\<close>: the timer \<^verbatim>\<open>t\<close> of the STABLE branch (delay 2500), which sets
    \<^verbatim>\<open>fadeOut\<close> and starts \<^verbatim>\<open>t2\<close>;
  \<^item> \<open>Done\<close>: the timer \<^verbatim>\<open>t2\<close> (delay 800), \<^verbatim>\<open>() => onDone?.()\<close>.
\<close>

datatype timer_action = GlitchClear | AmbienceStart | Hold | Done

record timer =
  tid :: nat
  due :: nat
  action :: timer_action

text \<open>The calls that leave the component: the three audio cues and the host callback.\<close>

datatype out_call =
    PlayPing ModuleName
  | PlayChime
  | PlayAmbience
  | FadeOutAmbience nat
  | OnDone

text \<open>
  The state of one mounted \<^verbatim>\<open>InitializationScreen\<close>: its props and simulator
  value (\<open>pg\<close> is \<^verbatim>\<open>progress ?? sim\<close>), its \<^verbatim>\<open>useState\<close> cells, the ref
  \<^verbatim>\<open>prevModulesRef\<close>, what React remembers of the two effects (the dependency values of
  their last run and the cleanup the phase effect returned: the identifier of the timer
  that \<^verbatim>\<open>clearTimeout(t)\<close> would clear), the identifier of the ambience timer (its
  cleanup), whether the 50 ms analysis interval is running, and the browser's side: the
  clock in milliseconds, the pending timeouts in the order they were registered, and the
  outputs so far.
\<close>

record comp =
  pg :: "InitProgress option"
  phase :: Phase
  fadeOut :: bool
  glitching :: bool
  prevModules :: "ModuleName \<Rightarrow> bool option"
  ping_deps :: "nat option"
  phase_deps :: "real option \<times> nat option \<times> bool option \<times> Phase"
  phase_cleanup :: "nat option"
  ambience_timer :: "nat option"
  sampling :: bool
  mounted :: bool
  now :: nat
  next_id :: nat
  timers :: "timer list"
  outputs :: "out_call list"

section \<open>Browser primitives\<close>

text \<open>\<^verbatim>\<open>setTimeout(f, ms)\<close>: a fresh identifier, due \<open>ms\<close> after the current time.\<close>

definition set_timeout :: "nat \<Rightarrow> timer_action \<Rightarrow> comp \<Rightarrow> comp" where
  "set_timeout ms a c =
     c\<lparr>timers := timers c @ [\<lparr>tid = next_id c, due = now c + ms, action = a\<rparr>],
       next_id := Suc (next_id c)\<rparr>"

text \<open>\<^verbatim>\<open>clearTimeout(id)\<close>: the timer with that identifier, if still pending, is dropped.\<close>

definition clear_timeout :: "nat \<Rightarrow> comp \<Rightarrow> comp" where
  "clear_timeout i c = c\<lparr>timers := filter (\<lambda>t. tid t \<noteq> i) (timers c)\<rparr>"

definition emit :: "out_call \<Rightarrow> comp \<Rightarrow> comp" where
  "emit x c = c\<lparr>outputs := outputs c @ [x]\<rparr>"

section \<open>The two effects of the component\<close>

text \<open>\<^verbatim>\<open>!!obj[m]\<close>: the key is there and its value is \<^verbatim>\<open>true\<close>.\<close>

definition truthy :: "(ModuleName \<Rightarrow> bool option) \<Rightarrow> ModuleName \<Rightarrow> bool" where
  "truthy obj m = (obj m = Some True)"

text \<open>\<^verbatim>\<open>pg?.modules ?? {}\<close>\<close>

definition modules_or_empty :: "InitProgress option \<Rightarrow> ModuleName \<Rightarrow> bool option" where
  "modules_or_empty p =
     (case p of None \<Rightarrow> Map.empty
      | Some g \<Rightarrow> (case modules g of None \<Rightarrow> Map.empty | Some ob \<Rightarrow> entries ob))"

text \<open>
  The body of the loop of the module-ready effect, for one module:
  \<^verbatim>\<open>const was = !!prev[m]; const is = !!now[m];
  if (!was && is) { ping.play(); setGlitching(true); setTimeout(() => setGlitching(false), 200); }\<close>
\<close>

definition ping_one ::
  "(ModuleName \<Rightarrow> bool option) \<Rightarrow> (ModuleName \<Rightarrow> bool option) \<Rightarrow> comp \<Rightarrow> ModuleName \<Rightarrow> comp" where
  "ping_one prev nw c m =
     (if \<not> truthy prev m \<and> truthy nw m
      then set_timeout 200 GlitchClear (emit (PlayPing m) c\<lparr>glitching := True\<rparr>)
      else c)"

text \<open>
  The module-ready effect:
  \<^verbatim>\<open>const now = pg?.modules ?? {}; const prev = prevModulesRef.current;
  for (const m of MODULES) { ... }
  prevModulesRef.current = now as Record<string, boolean>;\<close>
\<close>

definition ping_effect :: "comp \<Rightarrow> comp" where
  "ping_effect c =
     (let nw = modules_or_empty (pg c);
          prev = prevModules c
      in (foldl (ping_one prev nw) c MODULES)\<lparr>prevModules := nw\<rparr>)"

text \<open>\<^verbatim>\<open>const pct = pg?.percent ?? 0;\<close>\<close>

definition pct_of :: "InitProgress option \<Rightarrow> real" where
  "pct_of p = (case p of None \<Rightarrow> 0 | Some g \<Rightarrow> (case percent g of None \<Rightarrow> 0 | Some x \<Rightarrow> x))"

text \<open>\<^verbatim>\<open>const anyModuleData = !!pg?.modules && Object.keys(pg.modules).length > 0;\<close>\<close>

definition anyModuleData :: "InitProgress option \<Rightarrow> bool" where
  "anyModuleData p =
     (case p of None \<Rightarrow> False
      | Some g \<Rightarrow> (case modules g of None \<Rightarrow> False
                   | Some ob \<Rightarrow> 0 < length (filter (\<lambda>m. entries ob m \<noteq> None) MODULES)))"

text \<open>\<^verbatim>\<open>const allReady = MODULES.every(m => !!pg?.modules?.[m]);\<close>\<close>

definition allReady :: "InitProgress option \<Rightarrow> bool" where
  "allReady p = list_all (truthy (modules_or_empty p)) MODULES"

text \<open>\<^verbatim>\<open>pg?.systemReady\<close> as a condition: \<^verbatim>\<open>undefined\<close> is falsy.\<close>

definition systemReady_of :: "InitProgress option \<Rightarrow> bool" where
  "systemReady_of p = (case p of None \<Rightarrow> False | Some g \<Rightarrow> systemReady g)"

text \<open>
  The phase progression effect. The three guards read \<^verbatim>\<open>phase\<close> of the render the
  effect belongs to (\<open>p\<close> below), not the value a preceding \<^verbatim>\<open>setPhase\<close> of the same
  run has asked for; React applies the queued updates in order, so the last
  \<^verbatim>\<open>setPhase\<close> of the run is the phase of the next render. The STABLE branch returns
  the cleanup \<^verbatim>\<open>() => clearTimeout(t)\<close>; every other path returns nothing.
\<close>

definition phase_effect :: "comp \<Rightarrow> comp" where
  "phase_effect c =
     (let p = phase c;
          pct = pct_of (pg c);
          c1 = (if p = PHASE_AWAKENING \<and> pct > 0.15
                then set_timeout 300 GlitchClear (c\<lparr>phase := PHASE_ACTIVATION, glitching := True\<rparr>)
                else c);
          c2 = (if phase_num p \<le> phase_num PHASE_ACTIVATION \<and> (pct > 0.3 \<or> anyModuleData (pg c))
                then set_timeout 300 GlitchClear (c1\<lparr>phase := PHASE_MODULES, glitching := True\<rparr>)
                else c1)
      in if (systemReady_of (pg c) \<or> allReady (pg c)) \<and> p \<noteq> PHASE_STABLE
         then (let c3 = set_timeout 500 GlitchClear (c2\<lparr>phase := PHASE_STABLE, glitching := True\<rparr>);
                   c4 = emit (FadeOutAmbience 1200) (emit PlayChime c3);
                   t = next_id c4
               in (set_timeout 2500 Hold c4)\<lparr>phase_cleanup := Some t\<rparr>)
         else c2\<lparr>phase_cleanup := None\<rparr>)"

section \<open>Renders and commits\<close>

text \<open>
  The dependency arrays \<^verbatim>\<open>[pg?.modules]\<close> and
  \<^verbatim>\<open>[pg?.percent, pg?.modules, pg?.systemReady, phase]\<close>, as React compares them:
  numbers and booleans by value, the object by identity, \<^verbatim>\<open>undefined\<close> as \<open>None\<close>.
\<close>

definition modules_dep :: "InitProgress option \<Rightarrow> nat option" where
  "modules_dep p = (case p of None \<Rightarrow> None | Some g \<Rightarrow> map_option ref (modules g))"

definition percent_dep :: "InitProgress option \<Rightarrow> real option" where
  "percent_dep p = (case p of None \<Rightarrow> None | Some g \<Rightarrow> percent g)"

definition phase_dep :: "comp \<Rightarrow> real option \<times> nat option \<times> bool option \<times> Phase" where
  "phase_dep c = (percent_dep (pg c), modules_dep (pg c), map_option systemReady (pg c), phase c)"

text \<open>The cleanup the phase effect returned at its last run, \<^verbatim>\<open>() => clearTimeout(t)\<close>.\<close>

definition run_cleanup :: "comp \<Rightarrow> comp" where
  "run_cleanup c = (case phase_cleanup c of None \<Rightarrow> c | Some t \<Rightarrow> clear_timeout t c)"

text \<open>
  The hooks have the semantics React documents for \<^verbatim>\<open>useState\<close>, \<^verbatim>\<open>useRef\<close>
  and \<^verbatim>\<open>useEffect\<close> (the double run of effects that \<^verbatim>\<open>StrictMode\<close> adds in
  development builds is not modelled).

  One commit after a render that is not the first: an effect whose dependencies differ
  from those of its last run is run again. React first runs the cleanups of the effects
  it is about to run again, then their bodies in the order of the hooks (the module-ready
  effect stands before the phase effect). The ambience effect has the dependencies
  \<^verbatim>\<open>[]\<close> and never runs again.
\<close>

definition commit :: "comp \<Rightarrow> comp" where
  "commit c =
     (let run_ping = (ping_deps c \<noteq> modules_dep (pg c));
          run_phase = (phase_deps c \<noteq> phase_dep c);
          d = phase_dep c;
          c1 = (if run_phase then run_cleanup c else c);
          c2 = (if run_ping then ping_effect c1 else c1);
          c3 = (if run_phase then phase_effect c2 else c2)
      in c3\<lparr>ping_deps := modules_dep (pg c), phase_deps := d\<rparr>)"

text \<open>
  The first commit, at mount: every effect runs. The ambience effect is
  \<^verbatim>\<open>const t = setTimeout(() => ambience.play(), 400); return () => clearTimeout(t);\<close>
\<close>

definition first_commit :: "comp \<Rightarrow> comp" where
  "first_commit c =
     (let d = phase_dep c;
          c1 = ping_effect c;
          c2 = (set_timeout 400 AmbienceStart c1)\<lparr>ambience_timer := Some (next_id c1)\<rparr>;
          c3 = phase_effect c2
      in c3\<lparr>ping_deps := modules_dep (pg c), phase_deps := d\<rparr>)"

lemma phase_ping_one [simp]: "phase (ping_one prev nw c m) = phase c"
  by (simp add: ping_one_def set_timeout_def emit_def)

lemma phase_ping_effect [simp]: "phase (ping_effect c) = phase c"
proof -
  have "phase (foldl (ping_one prev nw) c ms) = phase c" for prev nw ms
    by (induction ms arbitrary: c) simp_all
  then show ?thesis by (simp add: ping_effect_def Let_def)
qed

lemma phase_run_cleanup [simp]: "phase (run_cleanup c) = phase c"
  by (simp add: run_cleanup_def clear_timeout_def split: option.splits)

lemma phase_effect_mono: "phase_num (phase c) \<le> phase_num (phase (phase_effect c))"
  by (cases "phase c") (simp_all add: phase_effect_def Let_def set_timeout_def emit_def)

lemma phase_commit_mono: "phase_num (phase c) \<le> phase_num (phase (commit c))"
  using phase_effect_mono [of "ping_effect (run_cleanup c)"] phase_effect_mono [of "run_cleanup c"]
  by (simp add: commit_def Let_def)

lemma phase_num_le_4: "phase_num p \<le> 4"
  by (cases p) simp_all

lemma phase_num_inj: "phase_num p = phase_num q \<Longrightarrow> p = q"
  by (cases p; cases q) simp_all

text \<open>
  A \<^verbatim>\<open>setPhase\<close> that changes the phase makes React render again, and the commit
  of that render runs the phase effect again (\<^verbatim>\<open>phase\<close> is one of its dependencies).
  This goes on until a commit leaves the phase as it is. The other state the effects set
  (\<^verbatim>\<open>glitching\<close>) is in no dependency array: the render it causes runs no effect.
\<close>

function settle :: "comp \<Rightarrow> comp" where
  "settle c = (let c' = commit c in if phase c' = phase c then c' else settle c')"
  by pat_completeness auto
termination
proof (relation "measure (\<lambda>c. 4 - phase_num (phase c))")
  show "wf (measure (\<lambda>c. 4 - phase_num (phase c)))" by simp
next
  fix c x :: comp
  assume "x = commit c" and ne: "phase x \<noteq> phase c"
  then have "phase_num (phase c) \<noteq> phase_num (phase (commit c))"
    using phase_num_inj by metis
  with phase_commit_mono [of c] have "phase_num (phase c) < phase_num (phase (commit c))"
    by simp
  with phase_num_le_4 [of "phase (commit c)"] \<open>x = commit c\<close>
  show "(x, c) \<in> measure (\<lambda>c. 4 - phase_num (phase c))" by simp
qed

declare settle.simps [simp del]

text \<open>
  The component before its first commit:
  \<^verbatim>\<open>useState<number>(PHASE.AWAKENING)\<close>, \<^verbatim>\<open>useState(false)\<close> twice,
  \<^verbatim>\<open>useRef<Record<string, boolean>>({})\<close>.
\<close>

definition init_comp :: "InitProgress option \<Rightarrow> comp" where
  "init_comp p =
     \<lparr>pg = p, phase = PHASE_AWAKENING, fadeOut = False, glitching = False,
      prevModules = Map.empty, ping_deps = None,
      phase_deps = (None, None, None, PHASE_AWAKENING), phase_cleanup = None,
      ambience_timer = None, sampling = False, mounted = True,
      now = 0, next_id = 0, timers = [], outputs = []\<rparr>"

definition mount :: "InitProgress option \<Rightarrow> comp" where
  "mount p = settle (first_commit (init_comp p))"

text \<open>
  Unmounting runs the cleanups of the effects: \<^verbatim>\<open>clearInterval(interval)\<close> of the
  analysis sampling, \<^verbatim>\<open>clearTimeout(t)\<close> of the ambience effect, and the cleanup
  of the phase effect, if its last run returned one. The timers started with
  \<^verbatim>\<open>setTimeout(() => setGlitching(false), ...)\<close> have no handle and no cleanup.
\<close>

definition unmount :: "comp \<Rightarrow> comp" where
  "unmount c =
     (let c1 = (case ambience_timer c of None \<Rightarrow> c | Some t \<Rightarrow> clear_timeout t c);
          c2 = run_cleanup c1
      in c2\<lparr>sampling := False, mounted := False\<rparr>)"

section \<open>Timers\<close>

text \<open>
  What a timer's callback does. A state update of an unmounted component is ignored by
  React. The callback of \<^verbatim>\<open>t\<close> is
  \<^verbatim>\<open>() => { setFadeOut(true); const t2 = setTimeout(() => onDone?.(), 800);
         return () => clearTimeout(t2); }\<close>;
  what a timer callback returns is dropped by the browser.
\<close>

definition fire :: "timer \<Rightarrow> comp \<Rightarrow> comp" where
  "fire t c =
     (case action t of
        GlitchClear \<Rightarrow> (if mounted c then c\<lparr>glitching := False\<rparr> else c)
      | AmbienceStart \<Rightarrow> emit PlayAmbience c
      | Hold \<Rightarrow> set_timeout 800 Done (if mounted c then c\<lparr>fadeOut := True\<rparr> else c)
      | Done \<Rightarrow> emit OnDone c)"

text \<open>The pending timer that is due first; among equals, the one registered first.\<close>

fun earliest :: "timer list \<Rightarrow> timer option" where
  "earliest [] = None"
| "earliest (t # ts) =
     (case earliest ts of
        None \<Rightarrow> Some t
      | Some u \<Rightarrow> (if due u < due t then Some u else Some t))"

lemma earliest_in_set: "earliest ts = Some t \<Longrightarrow> t \<in> set ts"
  by (induction ts arbitrary: t) (auto split: option.splits if_splits)

definition weight :: "timer \<Rightarrow> nat" where
  "weight t = (case action t of Hold \<Rightarrow> 2 | _ \<Rightarrow> 1)"

lemma weight_pos: "0 < weight t"
  by (simp add: weight_def split: timer_action.splits)

lemma timers_fire_weight:
  "sum_list (map weight (timers (fire t c))) < weight t + sum_list (map weight (timers c))"
  by (simp add: fire_def emit_def set_timeout_def weight_def split: timer_action.splits)

text \<open>
  Time passes until \<open>target\<close>: the timers due by then fire one after another, each at
  its own time, and a timer started by a callback (\<^verbatim>\<open>t2\<close>) fires in the same
  pass when it is due by \<open>target\<close>.
\<close>

function run_timers :: "nat \<Rightarrow> comp \<Rightarrow> comp" where
  "run_timers target c =
     (case earliest (filter (\<lambda>t. due t \<le> target) (timers c)) of
        None \<Rightarrow> c\<lparr>now := max (now c) target\<rparr>
      | Some t \<Rightarrow>
          run_timers target
            (fire t (c\<lparr>timers := remove1 t (timers c), now := max (now c) (due t)\<rparr>)))"
  by pat_completeness auto
termination
proof (relation "measure (\<lambda>(target, c). sum_list (map weight (timers c)))")
  show "wf (measure (\<lambda>(target, c). sum_list (map weight (timers c))))" by simp
next
  fix target :: nat and c :: comp and t :: timer
  assume "earliest (filter (\<lambda>t. due t \<le> target) (timers c)) = Some t"
  then have "t \<in> set (timers c)"
    using earliest_in_set by fastforce
  then have "sum_list (map weight (timers c)) = weight t + sum_list (map weight (remove1 t (timers c)))"
    by (rule sum_list_map_remove1)
  moreover have "sum_list (map weight (timers (fire t (c\<lparr>timers := remove1 t (timers c), now := max (now c) (due t)\<rparr>))))
      < weight t + sum_list (map weight (remove1 t (timers c)))"
    using timers_fire_weight [of t "c\<lparr>timers := remove1 t (timers c), now := max (now c) (due t)\<rparr>"]
    by simp
  ultimately show "((target, fire t (c\<lparr>timers := remove1 t (timers c), now := max (now c) (due t)\<rparr>)), (target, c))
      \<in> measure (\<lambda>(target, c). sum_list (map weight (timers c)))"
    by simp
qed

declare run_timers.simps [simp del]

section \<open>The life of a component\<close>

text \<open>
  What happens to a mounted component: the host or the simulator gives it a new value of
  \<^verbatim>\<open>pg\<close> (a render and its commits), time passes, the analyser of the ambience
  becomes available (the effect with the dependency \<^verbatim>\<open>[ambience.analyser]\<close> starts
  its interval), or the host unmounts it.
\<close>

datatype event = Snapshot "InitProgress option" | Advance nat | AnalyserReady | Unmount

fun step :: "event \<Rightarrow> comp \<Rightarrow> comp" where
  "step (Snapshot p) c = (if mounted c then settle (c\<lparr>pg := p\<rparr>) else c)"
| "step (Advance dt) c = run_timers (now c + dt) c"
| "step AnalyserReady c = (if mounted c then c\<lparr>sampling := True\<rparr> else c)"
| "step Unmount c = (if mounted c then unmount c else c)"

definition run :: "InitProgress option \<Rightarrow> event list \<Rightarrow> comp" where
  "run p es = foldl (\<lambda>c e. step e c) (mount p) es"

section \<open>The simulator\<close>

text \<open>
  \<^verbatim>\<open>useSimulatedProgress\<close>. One call of \<^verbatim>\<open>step\<close>, at the elapsed time
  \<^verbatim>\<open>t = performance.now() - start\<close>, builds this value (\<open>r\<close> is the identity of
  the object \<^verbatim>\<open>modules\<close> it allocates):
  \<^verbatim>\<open>const ms = 12000; const pct = Math.min(1, t / ms);
  const modules = {}; stages.forEach(s => { modules[s.module] = pct >= s.t; });
  const systemReady = pct >= 0.95 &&
      Object.values(modules).filter(Boolean).length === MODULES.length;\<close>
\<close>

definition sim_ms :: real where
  "sim_ms = 12000"

definition stages :: "(real \<times> ModuleName) list" where
  "stages = [(0.2, SpeechSystem), (0.4, VoiceEngine), (0.65, KnowledgeCore), (0.85, VisionSystem)]"

text \<open>\<^verbatim>\<open>Object.values(obj)\<close>, for an object whose keys are module names.\<close>

definition object_values :: "(ModuleName \<Rightarrow> bool option) \<Rightarrow> bool list" where
  "object_values obj = List.map_filter obj MODULES"

definition sim_snapshot :: "nat \<Rightarrow> real \<Rightarrow> InitProgress" where
  "sim_snapshot r t =
     (let pct = min 1 (t / sim_ms);
          mods = foldl (\<lambda>obj (s, m). obj(m \<mapsto> (pct \<ge> s))) Map.empty stages;
          sr = (pct \<ge> 0.95 \<and> length (filter (\<lambda>v. v) (object_values mods)) = length MODULES)
      in \<lparr>systemReady = sr, percent = Some pct,
          modules = Some \<lparr>ref = r, entries = mods\<rparr>,
          message = Some (if sr then ''System Ready'' else ''Integrating modules...'')\<rparr>)"

text \<open>
  The state of the hook's effect: its start time, whether an animation frame is
  requested (\<^verbatim>\<open>raf\<close>), and how many objects it has allocated. The effect starts with
  \<^verbatim>\<open>const start = performance.now(); raf = requestAnimationFrame(step);\<close>, every
  frame that was requested runs \<^verbatim>\<open>step\<close>, which ends with
  \<^verbatim>\<open>if (pct < 1) raf = requestAnimationFrame(step);\<close>, and the cleanup is
  \<^verbatim>\<open>cancelAnimationFrame(raf)\<close>.
\<close>

record simulator =
  start :: real
  raf :: bool
  allocated :: nat

definition sim_start :: "real \<Rightarrow> simulator" where
  "sim_start t0 = \<lparr>start = t0, raf = True, allocated = 0\<rparr>"

definition sim_frame :: "real \<Rightarrow> simulator \<Rightarrow> InitProgress option \<times> simulator" where
  "sim_frame tnow s =
     (if raf s
      then (let t = tnow - start s; pct = min 1 (t / sim_ms)
            in (Some (sim_snapshot (allocated s) t),
                s\<lparr>raf := (pct < 1), allocated := Suc (allocated s)\<rparr>))
      else (None, s))"

definition sim_cancel :: "simulator \<Rightarrow> simulator" where
  "sim_cancel s = s\<lparr>raf := False\<rparr>"

text \<open>The values \<^verbatim>\<open>setP\<close> receives over a sequence of animation frames.\<close>

fun sim_run :: "simulator \<Rightarrow> real list \<Rightarrow> InitProgress list" where
  "sim_run s [] = []"
| "sim_run s (f # fs) =
     (case sim_frame f s of
        (None, s') \<Rightarrow> sim_run s' fs
      | (Some p, s') \<Rightarrow> p # sim_run s' fs)"

text \<open>
  A component that is given no \<^verbatim>\<open>progress\<close> prop: \<^verbatim>\<open>pg\<close> is the simulator's
  value, \<^verbatim>\<open>undefined\<close> until the first frame. Its life is made of frames (each a
  new simulated value), of time passing and of the unmount.
\<close>

datatype sim_event = Frame nat real | Pass nat | Teardown

fun as_event :: "sim_event \<Rightarrow> event" where
  "as_event (Frame r t) = Snapshot (Some (sim_snapshot r t))"
| "as_event (Pass dt) = Advance dt"
| "as_event Teardown = Unmount"

section \<open>What is shown of the percentage\<close>

text \<open>\<^verbatim>\<open>const clamp = (n: number, a = 0, b = 1) => Math.max(a, Math.min(b, n));\<close>\<close>

definition clamp :: "real \<Rightarrow> real \<Rightarrow> real \<Rightarrow> real" where
  "clamp n a b = max a (min b n)"



text \<open>A snapshot with its \<^verbatim>\<open>percent\<close> clamped into \<open>[0, 1]\<close>, for comparison.\<close>

definition clamped :: "InitProgress \<Rightarrow> InitProgress" where
  "clamped g = g\<lparr>percent := map_option (\<lambda>n. clamp n 0 1) (percent g)\<rparr>"

text \<open>The states a component goes through, one after each event.\<close>

fun trace_from :: "comp \<Rightarrow> event list \<Rightarrow> comp list" where
  "trace_from c [] = [c]"
| "trace_from c (e # es) = c # trace_from (step e c) es"

section \<open>Observations\<close>

text \<open>The pending timers as pairs of the time they are due and what they do, in the order
  they were registered.\<close>

definition pending :: "comp \<Rightarrow> (nat \<times> timer_action) list" where
  "pending c = map (\<lambda>t. (due t, action t)) (timers c)"

text \<open>The modules for which \<^verbatim>\<open>ping.play()\<close> was called, in order.\<close>

fun pings :: "out_call list \<Rightarrow> ModuleName list" where
  "pings [] = []"
| "pings (PlayPing m # xs) = m # pings xs"
| "pings (x # xs) = pings xs"

section \<open>Concrete inputs\<close>

text \<open>A snapshot without a message, for the concrete runs below.\<close>

abbreviation snap :: "bool \<Rightarrow> real option \<Rightarrow> modules_obj option \<Rightarrow> InitProgress" where
  "snap sr p m \<equiv> \<lparr>systemReady = sr, percent = p, modules = m, message = None\<rparr>"

lemma ex_bool: "(\<exists>b::bool. b) = True" "(\<exists>b::bool. \<not> b) = True"
  by auto

text \<open>The definitions a concrete run unfolds to.\<close>

lemmas eval_defs = run_def mount_def settle.simps run_timers.simps first_commit_def init_comp_def
  commit_def Let_def phase_effect_def ping_effect_def MODULES_def ping_one_def truthy_def
  modules_or_empty_def pct_of_def anyModuleData_def allReady_def systemReady_of_def set_timeout_def
  emit_def clear_timeout_def run_cleanup_def phase_dep_def modules_dep_def percent_dep_def fire_def
  unmount_def sim_snapshot_def stages_def sim_ms_def object_values_def pending_def ex_bool

section \<open>Auxiliary notions for the proofs\<close>

text \<open>
  The modules of a list that are ready in \<open>nw\<close> and not in \<open>prev\<close>: those for which
  the guard \<^verbatim>\<open>!was && is\<close> of the module-ready effect holds.
\<close>

definition rising :: "(ModuleName \<Rightarrow> bool option) \<Rightarrow> (ModuleName \<Rightarrow> bool option) \<Rightarrow> ModuleName list \<Rightarrow> ModuleName list" where
  "rising prev nw ms = filter (\<lambda>m. \<not> truthy prev m \<and> truthy nw m) ms"

text \<open>\<open>k\<close> timers that clear the glitch flag at time \<open>d\<close>, with the identifiers from \<open>n\<close> on.\<close>

primrec glitch_timers :: "nat \<Rightarrow> nat \<Rightarrow> nat \<Rightarrow> timer list" where
  "glitch_timers n d 0 = []"
| "glitch_timers n d (Suc k) = \<lparr>tid = n, due = d, action = GlitchClear\<rparr> # glitch_timers (Suc n) d k"

lemma glitch_timers_set:
  "t \<in> set (glitch_timers n d k) \<Longrightarrow> action t = GlitchClear \<and> due t = d \<and> n \<le> tid t \<and> tid t < n + k"
  by (induction k arbitrary: n) fastforce+

lemma foldl_ping_one:
  "foldl (ping_one prev nw) c ms =
     c\<lparr>glitching := glitching c \<or> rising prev nw ms \<noteq> [],
       timers := timers c @ glitch_timers (next_id c) (now c + 200) (length (rising prev nw ms)),
       next_id := next_id c + length (rising prev nw ms),
       outputs := outputs c @ map PlayPing (rising prev nw ms)\<rparr>"
proof (induction ms arbitrary: c)
  case Nil
  show ?case by (simp add: rising_def)
next
  case (Cons m ms)
  show ?case
    by (simp add: Cons.IH) (simp add: ping_one_def rising_def set_timeout_def emit_def)
qed

lemma ping_effect_eq:
  "ping_effect c =
     c\<lparr>glitching := glitching c \<or> rising (prevModules c) (modules_or_empty (pg c)) MODULES \<noteq> [],
       timers := timers c @ glitch_timers (next_id c) (now c + 200)
                   (length (rising (prevModules c) (modules_or_empty (pg c)) MODULES)),
       next_id := next_id c + length (rising (prevModules c) (modules_or_empty (pg c)) MODULES),
       outputs := outputs c @ map PlayPing (rising (prevModules c) (modules_or_empty (pg c)) MODULES),
       prevModules := modules_or_empty (pg c)\<rparr>"
  by (simp add: ping_effect_def Let_def foldl_ping_one)

text \<open>
  The phase of the render after a run of the phase effect, as a function of the snapshot
  and of the phase of the render the effect ran in (\<open>phase_phase_effect\<close> below).
\<close>

definition next_phase :: "InitProgress option \<Rightarrow> Phase \<Rightarrow> Phase" where
  "next_phase g p =
     (if (systemReady_of g \<or> allReady g) \<and> p \<noteq> PHASE_STABLE then PHASE_STABLE
      else if phase_num p \<le> phase_num PHASE_ACTIVATION \<and> (pct_of g > 0.3 \<or> anyModuleData g) then PHASE_MODULES
      else if p = PHASE_AWAKENING \<and> pct_of g > 0.15 then PHASE_ACTIVATION
      else p)"

lemma phase_phase_effect: "phase (phase_effect c) = next_phase (pg c) (phase c)"
  by (auto simp add: phase_effect_def next_phase_def Let_def set_timeout_def emit_def)

lemma next_phase_idem: "next_phase g (next_phase g p) = next_phase g p"
  by (cases p) (simp_all add: next_phase_def)

lemma next_phase_mono: "phase_num p \<le> phase_num (next_phase g p)"
  by (cases p) (simp_all add: next_phase_def)

lemma next_phase_stable [simp]: "next_phase g PHASE_STABLE = PHASE_STABLE"
  by (simp add: next_phase_def)

subsection \<open>What the effects leave alone\<close>

lemma ping_effect_frame [simp]:
  "pg (ping_effect c) = pg c" "fadeOut (ping_effect c) = fadeOut c"
  "ping_deps (ping_effect c) = ping_deps c" "phase_deps (ping_effect c) = phase_deps c"
  "phase_cleanup (ping_effect c) = phase_cleanup c" "ambience_timer (ping_effect c) = ambience_timer c"
  "sampling (ping_effect c) = sampling c" "mounted (ping_effect c) = mounted c"
  "now (ping_effect c) = now c" "prevModules (ping_effect c) = modules_or_empty (pg c)"
  by (simp_all add: ping_effect_eq)

lemma phase_effect_frame [simp]:
  "pg (phase_effect c) = pg c" "fadeOut (phase_effect c) = fadeOut c"
  "ping_deps (phase_effect c) = ping_deps c" "phase_deps (phase_effect c) = phase_deps c"
  "prevModules (phase_effect c) = prevModules c" "ambience_timer (phase_effect c) = ambience_timer c"
  "sampling (phase_effect c) = sampling c" "mounted (phase_effect c) = mounted c"
  "now (phase_effect c) = now c"
  by (simp_all add: phase_effect_def Let_def set_timeout_def emit_def)

lemma run_cleanup_frame [simp]:
  "pg (run_cleanup c) = pg c" "fadeOut (run_cleanup c) = fadeOut c"
  "ping_deps (run_cleanup c) = ping_deps c" "phase_deps (run_cleanup c) = phase_deps c"
  "prevModules (run_cleanup c) = prevModules c" "ambience_timer (run_cleanup c) = ambience_timer c"
  "sampling (run_cleanup c) = sampling c" "mounted (run_cleanup c) = mounted c"
  "now (run_cleanup c) = now c" "outputs (run_cleanup c) = outputs c"
  "glitching (run_cleanup c) = glitching c" "next_id (run_cleanup c) = next_id c"
  "phase_cleanup (run_cleanup c) = phase_cleanup c"
  by (simp_all add: run_cleanup_def clear_timeout_def split: option.splits)

lemma commit_frame [simp]:
  "pg (commit c) = pg c" "fadeOut (commit c) = fadeOut c"
  "ambience_timer (commit c) = ambience_timer c"
  "sampling (commit c) = sampling c" "mounted (commit c) = mounted c"
  "now (commit c) = now c"
  "ping_deps (commit c) = modules_dep (pg c)" "phase_deps (commit c) = phase_dep c"
  by (simp_all add: commit_def Let_def)

lemma phase_commit:
  "phase (commit c) = (if phase_deps c \<noteq> phase_dep c then next_phase (pg c) (phase c) else phase c)"
  by (simp add: commit_def Let_def phase_phase_effect)

lemma phase_dep_commit:
  "phase_dep (commit c) = (percent_dep (pg c), modules_dep (pg c), map_option systemReady (pg c), phase (commit c))"
  by (simp add: phase_dep_def)

lemma commit_again_phase: "phase (commit (commit c)) = phase (commit c)"
  by (simp add: phase_commit next_phase_idem phase_dep_def)

lemma phase_settle:
  "phase (settle c) = (if phase_deps c \<noteq> phase_dep c then next_phase (pg c) (phase c) else phase c)"
proof (cases "phase (commit c) = phase c")
  case True
  then show ?thesis by (subst settle.simps) (simp add: Let_def phase_commit)
next
  case False
  have "settle c = settle (commit c)"
    using False by (subst settle.simps) (simp add: Let_def)
  also have "\<dots> = commit (commit c)"
    by (subst settle.simps) (simp add: Let_def commit_again_phase)
  finally have "phase (settle c) = phase (commit c)"
    by (simp only: commit_again_phase)
  then show ?thesis
    by (simp only: phase_commit)
qed

lemma settle_frame [simp]:
  "pg (settle c) = pg c" "fadeOut (settle c) = fadeOut c"
  "ambience_timer (settle c) = ambience_timer c"
  "sampling (settle c) = sampling c" "mounted (settle c) = mounted c"
  "now (settle c) = now c"
proof (induction c rule: settle.induct)
  case (1 c)
  {
    case 1 show ?case using "1.IH"(1) by (subst settle.simps) (simp add: Let_def)
  next
    case 2 show ?case using "1.IH"(2) by (subst settle.simps) (simp add: Let_def)
  next
    case 3 show ?case using "1.IH"(3) by (subst settle.simps) (simp add: Let_def)
  next
    case 4 show ?case using "1.IH"(4) by (subst settle.simps) (simp add: Let_def)
  next
    case 5 show ?case using "1.IH"(5) by (subst settle.simps) (simp add: Let_def)
  next
    case 6 show ?case using "1.IH"(6) by (subst settle.simps) (simp add: Let_def)
  }
qed

subsection \<open>Bookkeeping of the timers\<close>

text \<open>
  Every pending timer has an identifier that \<^verbatim>\<open>setTimeout\<close> has handed out, none is
  \<^verbatim>\<open>t2\<close>, the ambience timer is the one the ambience effect remembers, and the
  timer \<^verbatim>\<open>t\<close> is the one the cleanup of the phase effect would clear.
\<close>

definition timers_ok :: "comp \<Rightarrow> bool" where
  "timers_ok c \<longleftrightarrow>
     (\<forall>t \<in> set (timers c).
        tid t < next_id c \<and> action t \<noteq> Done \<and>
        (action t = AmbienceStart \<longleftrightarrow> ambience_timer c = Some (tid t)) \<and>
        (action t = Hold \<longleftrightarrow> phase_cleanup c = Some (tid t))) \<and>
     (\<forall>a. ambience_timer c = Some a \<longrightarrow> a < next_id c) \<and>
     (\<forall>i. phase_cleanup c = Some i \<longrightarrow> i < next_id c)"

lemma timers_ok_ping_one: "timers_ok c \<Longrightarrow> timers_ok (ping_one prev nw c m)"
  unfolding timers_ok_def by (auto simp add: ping_one_def set_timeout_def emit_def)

lemma timers_ok_ping_effect: "timers_ok c \<Longrightarrow> timers_ok (ping_effect c)"
proof -
  have fold: "timers_ok c \<Longrightarrow> timers_ok (foldl (ping_one prev nw) c ms)" for prev nw ms c
    by (induction ms arbitrary: c) (simp_all add: timers_ok_ping_one)
  have upd: "timers_ok c \<Longrightarrow> timers_ok (c\<lparr>prevModules := x\<rparr>)" for c x
    unfolding timers_ok_def by simp
  assume "timers_ok c"
  then show ?thesis by (simp add: ping_effect_def Let_def fold upd)
qed

lemma timers_ok_run_cleanup: "timers_ok c \<Longrightarrow> timers_ok (run_cleanup c)"
  unfolding timers_ok_def by (auto simp add: run_cleanup_def clear_timeout_def split: option.splits)

lemma no_hold_run_cleanup:
  "timers_ok c \<Longrightarrow> t \<in> set (timers (run_cleanup c)) \<Longrightarrow> action t \<noteq> Hold"
  unfolding timers_ok_def by (auto simp add: run_cleanup_def clear_timeout_def split: option.splits)

lemma no_hold_ping_effect:
  "\<forall>t \<in> set (timers c). action t \<noteq> Hold \<Longrightarrow> t \<in> set (timers (ping_effect c)) \<Longrightarrow> action t \<noteq> Hold"
  by (auto simp add: ping_effect_eq dest: glitch_timers_set)

lemma timers_ok_phase_effect:
  "timers_ok c \<Longrightarrow> \<forall>t \<in> set (timers c). action t \<noteq> Hold \<Longrightarrow> timers_ok (phase_effect c)"
  unfolding timers_ok_def by (auto simp add: phase_effect_def Let_def set_timeout_def emit_def)

lemma cleanup_phase_effect:
  "phase_cleanup (phase_effect c) \<noteq> None \<Longrightarrow> phase (phase_effect c) = PHASE_STABLE \<and> phase c \<noteq> PHASE_STABLE"
  by (auto simp add: phase_effect_def Let_def set_timeout_def emit_def split: if_splits)

lemma outputs_phase_effect:
  "outputs (phase_effect c) = outputs c @
     (if (systemReady_of (pg c) \<or> allReady (pg c)) \<and> phase c \<noteq> PHASE_STABLE
      then [PlayChime, FadeOutAmbience 1200] else [])"
  by (simp add: phase_effect_def Let_def set_timeout_def emit_def)

lemma outputs_ping_effect:
  "outputs (ping_effect c) = outputs c @ map PlayPing (rising (prevModules c) (modules_or_empty (pg c)) MODULES)"
  by (simp add: ping_effect_eq)

text \<open>
  What holds between the commits of one update (\<open>mid_commit\<close>: a cleanup that is still
  to run belongs to a phase effect that is about to run again) and after the last of them
  (\<open>at_rest\<close>: no cleanup is left, and the dependencies of both effects are those of the
  current render).
\<close>

definition mid_commit :: "comp \<Rightarrow> bool" where
  "mid_commit c \<longleftrightarrow> timers_ok c \<and> (phase_cleanup c \<noteq> None \<longrightarrow> phase_deps c \<noteq> phase_dep c) \<and>
     OnDone \<notin> set (outputs c) \<and> \<not> fadeOut c"

definition at_rest :: "comp \<Rightarrow> bool" where
  "at_rest c \<longleftrightarrow> timers_ok c \<and> phase_cleanup c = None \<and> OnDone \<notin> set (outputs c) \<and> \<not> fadeOut c \<and>
     (mounted c \<longrightarrow> phase_deps c = phase_dep c \<and> ping_deps c = modules_dep (pg c))"

lemma outputs_commit:
  "outputs (commit c) = outputs c @
     (if ping_deps c \<noteq> modules_dep (pg c)
      then map PlayPing (rising (prevModules c) (modules_or_empty (pg c)) MODULES) else []) @
     (if phase_deps c \<noteq> phase_dep c \<and> (systemReady_of (pg c) \<or> allReady (pg c)) \<and> phase c \<noteq> PHASE_STABLE
      then [PlayChime, FadeOutAmbience 1200] else [])"
  by (simp add: commit_def Let_def outputs_phase_effect outputs_ping_effect)

lemma timers_ok_deps_upd: "timers_ok (c\<lparr>ping_deps := x, phase_deps := y\<rparr>) = timers_ok c"
  unfolding timers_ok_def by simp

lemma timers_ok_commit: "timers_ok c \<Longrightarrow> (phase_cleanup c \<noteq> None \<longrightarrow> phase_deps c \<noteq> phase_dep c) \<Longrightarrow> timers_ok (commit c)"
proof -
  assume k: "timers_ok c" and p: "phase_cleanup c \<noteq> None \<longrightarrow> phase_deps c \<noteq> phase_dep c"
  show ?thesis
  proof (cases "phase_deps c \<noteq> phase_dep c")
    case True
    have k1: "timers_ok (run_cleanup c)" using k by (rule timers_ok_run_cleanup)
    have h1: "\<forall>t \<in> set (timers (run_cleanup c)). action t \<noteq> Hold"
      using no_hold_run_cleanup [OF k] by blast
    have "timers_ok (phase_effect (run_cleanup c))" using k1 h1 by (rule timers_ok_phase_effect)
    moreover have "timers_ok (phase_effect (ping_effect (run_cleanup c)))"
      using timers_ok_ping_effect [OF k1] h1 no_hold_ping_effect [of "run_cleanup c"]
      by (intro timers_ok_phase_effect) blast+
    ultimately show ?thesis using True
      by (simp add: commit_def Let_def timers_ok_deps_upd)
  next
    case False
    then show ?thesis using k
      by (simp add: commit_def Let_def timers_ok_deps_upd timers_ok_ping_effect)
  qed
qed

lemma phase_cleanup_commit:
  "phase_cleanup (commit c) \<noteq> None \<Longrightarrow> phase_cleanup c \<noteq> None \<longrightarrow> phase_deps c \<noteq> phase_dep c \<Longrightarrow>
     phase (commit c) \<noteq> phase c"
  using cleanup_phase_effect [of "run_cleanup c"] cleanup_phase_effect [of "ping_effect (run_cleanup c)"]
  by (auto simp add: commit_def Let_def split: if_splits)

lemma mid_commit: "mid_commit c \<Longrightarrow> mid_commit (commit c)"
proof -
  assume j: "mid_commit c"
  then have k: "timers_ok (commit c)" by (simp add: mid_commit_def timers_ok_commit)
  have "phase_cleanup (commit c) \<noteq> None \<longrightarrow> phase_deps (commit c) \<noteq> phase_dep (commit c)"
    using phase_cleanup_commit [of c] j by (auto simp add: mid_commit_def phase_dep_def)
  moreover have "OnDone \<notin> set (outputs (commit c))"
    using j by (auto simp add: mid_commit_def outputs_commit)
  ultimately show ?thesis using j k by (simp add: mid_commit_def)
qed

lemma mid_settle: "mid_commit c \<Longrightarrow> at_rest (settle c)"
proof (induction c rule: settle.induct)
  case (1 c)
  have jc: "mid_commit (commit c)" using "1.prems" by (rule mid_commit)
  show ?case
  proof (cases "phase (commit c) = phase c")
    case True
    have eq: "phase_deps (commit c) = phase_dep (commit c)"
      using True by (simp add: phase_dep_def)
    have "settle c = commit c"
      using True by (subst settle.simps) (simp add: Let_def)
    moreover have "at_rest (commit c)"
      using jc eq unfolding mid_commit_def at_rest_def by auto
    ultimately show ?thesis by simp
  next
    case False
    have "settle c = settle (commit c)"
      using False by (subst settle.simps) (simp add: Let_def)
    then show ?thesis using "1.IH" [OF refl False jc] by simp
  qed
qed

subsection \<open>Invariants over a life\<close>

lemma run_timers_preserves:
  assumes "Q c"
    and fire: "\<And>c t. Q c \<Longrightarrow> t \<in> set (timers c) \<Longrightarrow>
            Q (fire t (c\<lparr>timers := remove1 t (timers c), now := max (now c) (due t)\<rparr>))"
    and tick: "\<And>c n. Q c \<Longrightarrow> Q (c\<lparr>now := n\<rparr>)"
  shows "Q (run_timers target c)"
  using assms(1)
proof (induction target c rule: run_timers.induct)
  case (1 target c)
  show ?case
  proof (cases "earliest (filter (\<lambda>t. due t \<le> target) (timers c))")
    case None
    then show ?thesis using "1.prems" by (subst run_timers.simps) (simp add: tick)
  next
    case (Some t)
    then have "t \<in> set (timers c)"
      using earliest_in_set by fastforce
    then have "Q (fire t (c\<lparr>timers := remove1 t (timers c), now := max (now c) (due t)\<rparr>))"
      using "1.prems" by (intro fire)
    then show ?thesis
      using "1.IH" [OF Some] Some by (subst run_timers.simps) simp
  qed
qed

lemma rest_fire:
  assumes "at_rest c" and "t \<in> set (timers c)"
  shows "at_rest (fire t (c\<lparr>timers := remove1 t (timers c), now := max (now c) (due t)\<rparr>))"
proof -
  have nh: "action t = GlitchClear \<or> action t = AmbienceStart"
    using assms unfolding at_rest_def timers_ok_def by (cases "action t") auto
  have sub: "set (remove1 t (timers c)) \<subseteq> set (timers c)"
    by (rule set_remove1_subset)
  show ?thesis
    using nh assms(1) sub unfolding at_rest_def timers_ok_def
    by (auto simp add: fire_def emit_def phase_dep_def)
qed

lemma rest_run_timers: "at_rest c \<Longrightarrow> at_rest (run_timers target c)"
proof (rule run_timers_preserves [where Q = at_rest])
  show "\<And>c n. at_rest c \<Longrightarrow> at_rest (c\<lparr>now := n\<rparr>)"
    unfolding at_rest_def timers_ok_def by (simp add: phase_dep_def)
qed (simp_all add: rest_fire)

lemma rest_snapshot: "at_rest c \<Longrightarrow> mid_commit (c\<lparr>pg := p\<rparr>)"
  unfolding at_rest_def mid_commit_def timers_ok_def by simp

lemma rest_unmount: "at_rest c \<Longrightarrow> at_rest (unmount c)"
  unfolding at_rest_def timers_ok_def
  by (auto simp add: unmount_def Let_def run_cleanup_def clear_timeout_def split: option.splits)

lemma rest_step: "at_rest c \<Longrightarrow> at_rest (step e c)"
proof (cases e)
  case (Snapshot p)
  assume "at_rest c"
  then show ?thesis using Snapshot mid_settle [OF rest_snapshot] by simp
next
  case (Advance dt)
  assume "at_rest c"
  then show ?thesis using Advance by (simp add: rest_run_timers)
next
  case AnalyserReady
  assume "at_rest c"
  then show ?thesis using AnalyserReady unfolding at_rest_def timers_ok_def by (simp add: phase_dep_def)
next
  case Unmount
  assume "at_rest c"
  then show ?thesis using Unmount by (simp add: rest_unmount)
qed

lemma mid_first_commit: "mid_commit (first_commit (init_comp p))"
proof -
  let ?c0 = "init_comp p"
  let ?c1 = "ping_effect ?c0"
  let ?c2 = "(set_timeout 400 AmbienceStart ?c1)\<lparr>ambience_timer := Some (next_id ?c1)\<rparr>"
  have k0: "timers_ok ?c0" unfolding timers_ok_def by (simp add: init_comp_def)
  have h0: "\<forall>t \<in> set (timers ?c0). action t \<noteq> Hold" by (simp add: init_comp_def)
  have k1: "timers_ok ?c1" using k0 by (rule timers_ok_ping_effect)
  have h1: "\<forall>t \<in> set (timers ?c1). action t \<noteq> Hold"
    using no_hold_ping_effect [OF h0] by blast
  have a1: "ambience_timer ?c1 = None" "phase_cleanup ?c1 = None"
    by (simp_all add: init_comp_def)
  have k2: "timers_ok ?c2"
    using k1 a1 unfolding timers_ok_def by (auto simp add: set_timeout_def)
  have h2: "\<forall>t \<in> set (timers ?c2). action t \<noteq> Hold"
    using h1 by (auto simp add: set_timeout_def)
  have k3: "timers_ok (phase_effect ?c2)" using k2 h2 by (rule timers_ok_phase_effect)
  have o1: "outputs ?c1 = map PlayPing (rising Map.empty (modules_or_empty p) MODULES)"
    by (simp add: outputs_ping_effect init_comp_def)
  have o3: "OnDone \<notin> set (outputs (phase_effect ?c2))"
    by (auto simp add: outputs_phase_effect set_timeout_def o1)
  have f3: "\<not> fadeOut (phase_effect ?c2)"
    by (simp add: set_timeout_def init_comp_def)
  have p3: "phase_cleanup (phase_effect ?c2) \<noteq> None \<longrightarrow> phase (phase_effect ?c2) \<noteq> PHASE_AWAKENING"
    using cleanup_phase_effect [of ?c2] by auto
  have fc: "first_commit ?c0 = (phase_effect ?c2)\<lparr>ping_deps := modules_dep (pg ?c0), phase_deps := phase_dep ?c0\<rparr>"
    by (simp add: first_commit_def Let_def)
  have ph0: "phase ?c0 = PHASE_AWAKENING" by (simp add: init_comp_def)
  show ?thesis
    unfolding mid_commit_def fc using k3 o3 f3 p3 ph0
    by (auto simp add: timers_ok_deps_upd phase_dep_def)
qed

lemma rest_mount: "at_rest (mount p)"
  unfolding mount_def by (rule mid_settle [OF mid_first_commit])

lemma rest_run: "at_rest (run p es)"
proof -
  have "at_rest c \<Longrightarrow> at_rest (foldl (\<lambda>c e. step e c) c es)" for c
    by (induction es arbitrary: c) (simp_all add: rest_step)
  then show ?thesis unfolding run_def using rest_mount by blast
qed

lemma no_onDone: "OnDone \<notin> set (outputs (run p es))"
  using rest_run [of p es] by (simp add: at_rest_def)

subsection \<open>Phases along a life\<close>

lemma phase_fire [simp]: "phase (fire t c) = phase c"
  by (simp add: fire_def emit_def set_timeout_def split: timer_action.splits)

lemma phase_run_timers [simp]: "phase (run_timers target c) = phase c"
  by (rule run_timers_preserves [where Q = "\<lambda>d. phase d = phase c"]) simp_all

lemma phase_unmount [simp]: "phase (unmount c) = phase c"
  by (simp add: unmount_def Let_def clear_timeout_def split: option.splits)

lemma phase_step_mono: "phase_num (phase c) \<le> phase_num (phase (step e c))"
  by (cases e) (simp_all add: phase_settle phase_dep_def next_phase_mono)

lemma trace_from_ge: "d \<in> set (trace_from c es) \<Longrightarrow> phase_num (phase c) \<le> phase_num (phase d)"
proof (induction es arbitrary: c)
  case Nil
  then show ?case by simp
next
  case (Cons e es)
  then show ?case
    using phase_step_mono [of c e] by (auto intro: order_trans)
qed

lemma trace_from_sorted: "sorted (map (\<lambda>d. phase_num (phase d)) (trace_from c es))"
proof (induction es arbitrary: c)
  case Nil
  show ?case by simp
next
  case (Cons e es)
  have "phase_num (phase c) \<le> phase_num (phase d)" if "d \<in> set (trace_from (step e c) es)" for d
    using trace_from_ge [OF that] phase_step_mono [of c e] by (rule order_trans [rotated])
  then show ?case using Cons.IH [of "step e c"] by simp
qed

lemma trace_from_nonempty [simp]: "trace_from c es \<noteq> []"
  by (cases es) simp_all

lemma last_trace_from: "last (trace_from c es) = foldl (\<lambda>c e. step e c) c es"
  by (induction es arbitrary: c) simp_all

subsection \<open>What one update adds\<close>

text \<open>The three guards of the phase effect, for a snapshot and the phase of the render.\<close>

definition guard1 :: "InitProgress option \<Rightarrow> Phase \<Rightarrow> bool" where
  "guard1 g p \<longleftrightarrow> p = PHASE_AWAKENING \<and> pct_of g > 0.15"

definition guard2 :: "InitProgress option \<Rightarrow> Phase \<Rightarrow> bool" where
  "guard2 g p \<longleftrightarrow> phase_num p \<le> phase_num PHASE_ACTIVATION \<and> (pct_of g > 0.3 \<or> anyModuleData g)"

definition guard3 :: "InitProgress option \<Rightarrow> Phase \<Rightarrow> bool" where
  "guard3 g p \<longleftrightarrow> (systemReady_of g \<or> allReady g) \<and> p \<noteq> PHASE_STABLE"

text \<open>A pending timer, as \<open>pending\<close> shows it, that is not the timer \<^verbatim>\<open>t\<close>.\<close>

definition not_hold :: "nat \<times> timer_action \<Rightarrow> bool" where
  "not_hold x \<longleftrightarrow> snd x \<noteq> Hold"

text \<open>
  The timers and the calls one commit adds: those of the module-ready effect, if it runs,
  and those of the phase effect, if it runs (without the timer \<^verbatim>\<open>t\<close>, which the
  next commit clears).
\<close>

definition ping_glitches :: "comp \<Rightarrow> (nat \<times> timer_action) list" where
  "ping_glitches c =
     (if ping_deps c \<noteq> modules_dep (pg c)
      then map (\<lambda>m. (now c + 200, GlitchClear)) (rising (prevModules c) (modules_or_empty (pg c)) MODULES)
      else [])"

definition phase_glitches :: "comp \<Rightarrow> (nat \<times> timer_action) list" where
  "phase_glitches c =
     (if phase_deps c \<noteq> phase_dep c
      then (if guard1 (pg c) (phase c) then [(now c + 300, GlitchClear)] else []) @
           (if guard2 (pg c) (phase c) then [(now c + 300, GlitchClear)] else []) @
           (if guard3 (pg c) (phase c) then [(now c + 500, GlitchClear)] else [])
      else [])"

lemma next_phase_guards:
  "next_phase g p =
     (if guard3 g p then PHASE_STABLE else if guard2 g p then PHASE_MODULES
      else if guard1 g p then PHASE_ACTIVATION else p)"
  by (auto simp add: next_phase_def guard1_def guard2_def guard3_def)

lemma guards_after_change:
  "next_phase g p \<noteq> p \<Longrightarrow>
     \<not> guard1 g (next_phase g p) \<and> \<not> guard2 g (next_phase g p) \<and> \<not> guard3 g (next_phase g p)"
  by (cases p) (auto simp add: next_phase_def guard1_def guard2_def guard3_def split: if_splits)

lemma pending_glitch_timers:
  "map (\<lambda>t. (due t, action t)) (glitch_timers n d k) = replicate k (d, GlitchClear)"
  by (induction k arbitrary: n) simp_all

lemma pending_ping_effect:
  "pending (ping_effect c) =
     pending c @ map (\<lambda>m. (now c + 200, GlitchClear)) (rising (prevModules c) (modules_or_empty (pg c)) MODULES)"
  by (simp add: pending_def ping_effect_eq pending_glitch_timers map_replicate_const)

lemma pending_phase_effect:
  "pending (phase_effect c) = pending c @
     (if guard1 (pg c) (phase c) then [(now c + 300, GlitchClear)] else []) @
     (if guard2 (pg c) (phase c) then [(now c + 300, GlitchClear)] else []) @
     (if guard3 (pg c) (phase c) then [(now c + 500, GlitchClear), (now c + 2500, Hold)] else [])"
  by (auto simp add: pending_def phase_effect_def Let_def set_timeout_def emit_def guard1_def guard2_def guard3_def)

lemma pending_run_cleanup:
  "timers_ok c \<Longrightarrow> filter not_hold (pending (run_cleanup c)) = filter not_hold (pending c)"
proof -
  assume k: "timers_ok c"
  show ?thesis
  proof (cases "phase_cleanup c")
    case None
    then show ?thesis by (simp add: run_cleanup_def)
  next
    case (Some i)
    have "filter (\<lambda>t. action t \<noteq> Hold) (filter (\<lambda>t. tid t \<noteq> i) (timers c)) = filter (\<lambda>t. action t \<noteq> Hold) (timers c)"
      using k Some unfolding timers_ok_def by (auto intro: filter_cong)
    then show ?thesis
      using Some by (simp add: run_cleanup_def clear_timeout_def pending_def filter_map comp_def not_hold_def)
  qed
qed

lemma pending_commit:
  assumes "timers_ok c"
  shows "filter not_hold (pending (commit c)) = filter not_hold (pending c) @ ping_glitches c @ phase_glitches c"
proof -
  have p: "pending (c'\<lparr>ping_deps := x, phase_deps := y\<rparr>) = pending c'" for c' x y
    by (simp add: pending_def)
  show ?thesis
    using pending_run_cleanup [OF assms]
    by (simp add: commit_def Let_def p pending_phase_effect pending_ping_effect ping_glitches_def
        phase_glitches_def not_hold_def)
qed

lemma ping_glitches_commit [simp]: "ping_glitches (commit c) = []"
  by (simp add: ping_glitches_def)

lemma phase_glitches_commit: "phase (commit c) \<noteq> phase c \<Longrightarrow> phase_glitches (commit c) = []"
  using guards_after_change [of "pg c" "phase c"]
  by (auto simp add: phase_glitches_def phase_commit split: if_splits)

lemma pending_settle:
  "mid_commit c \<Longrightarrow>
     pending (settle c) = filter not_hold (pending c) @ ping_glitches c @ phase_glitches c"
proof (induction c rule: settle.induct)
  case (1 c)
  have k: "timers_ok c" using "1.prems" by (simp add: mid_commit_def)
  have jc: "mid_commit (commit c)" using "1.prems" by (rule mid_commit)
  show ?case
  proof (cases "phase (commit c) = phase c")
    case True
    have s: "settle c = commit c"
      using True by (subst settle.simps) (simp add: Let_def)
    have "at_rest (settle c)" using "1.prems" by (rule mid_settle)
    then have "\<forall>t \<in> set (timers (commit c)). action t \<noteq> Hold"
      unfolding s at_rest_def timers_ok_def by auto
    then have "filter not_hold (pending (commit c)) = pending (commit c)"
      by (auto simp add: pending_def not_hold_def filter_map comp_def)
    then show ?thesis using pending_commit [OF k] s by simp
  next
    case False
    have "settle c = settle (commit c)"
      using False by (subst settle.simps) (simp add: Let_def)
    then show ?thesis
      using "1.IH" [OF refl False jc] pending_commit [OF k] phase_glitches_commit [OF False]
      by simp
  qed
qed

lemma pings_append [simp]: "pings (xs @ ys) = pings xs @ pings ys"
  by (induction xs rule: pings.induct) simp_all

lemma pings_map [simp]: "pings (map PlayPing ms) = ms"
  by (induction ms) simp_all

definition ping_calls :: "comp \<Rightarrow> out_call list" where
  "ping_calls c =
     (if ping_deps c \<noteq> modules_dep (pg c)
      then map PlayPing (rising (prevModules c) (modules_or_empty (pg c)) MODULES) else [])"

definition stable_calls :: "comp \<Rightarrow> out_call list" where
  "stable_calls c =
     (if phase_deps c \<noteq> phase_dep c \<and> guard3 (pg c) (phase c)
      then [PlayChime, FadeOutAmbience 1200] else [])"

lemma outputs_commit': "outputs (commit c) = outputs c @ ping_calls c @ stable_calls c"
  by (simp add: outputs_commit ping_calls_def stable_calls_def guard3_def)

lemma stable_calls_commit: "phase (commit c) \<noteq> phase c \<Longrightarrow> stable_calls (commit c) = []"
  using guards_after_change [of "pg c" "phase c"]
  by (auto simp add: stable_calls_def phase_commit split: if_splits)

lemma outputs_settle: "outputs (settle c) = outputs c @ ping_calls c @ stable_calls c"
proof (induction c rule: settle.induct)
  case (1 c)
  show ?case
  proof (cases "phase (commit c) = phase c")
    case True
    then show ?thesis by (subst settle.simps) (simp add: Let_def outputs_commit')
  next
    case False
    have "settle c = settle (commit c)"
      using False by (subst settle.simps) (simp add: Let_def)
    then show ?thesis
      using "1.IH" [OF refl False] stable_calls_commit [OF False]
      by (simp add: outputs_commit' ping_calls_def)
  qed
qed



lemma glitching_commit:
  "glitching (commit c) = (glitching c \<or> ping_glitches c \<noteq> [] \<or> phase_glitches c \<noteq> [])"
  by (auto simp add: commit_def Let_def ping_effect_eq phase_effect_def set_timeout_def emit_def
      run_cleanup_def clear_timeout_def ping_glitches_def phase_glitches_def guard1_def guard2_def guard3_def
      split: option.splits)

lemma glitching_settle:
  "glitching (settle c) = (glitching c \<or> ping_glitches c \<noteq> [] \<or> phase_glitches c \<noteq> [])"
proof (induction c rule: settle.induct)
  case (1 c)
  show ?case
  proof (cases "phase (commit c) = phase c")
    case True
    then show ?thesis by (subst settle.simps) (simp add: Let_def glitching_commit)
  next
    case False
    have "settle c = settle (commit c)"
      using False by (subst settle.simps) (simp add: Let_def)
    then show ?thesis
      using "1.IH" [OF refl False] phase_glitches_commit [OF False] by (simp add: glitching_commit)
  qed
qed

lemma run_snoc: "run q (es @ [e]) = step e (run q es)"
  by (simp add: run_def)

lemma guards_stable [simp]:
  "\<not> guard1 g PHASE_STABLE" "\<not> guard2 g PHASE_STABLE" "\<not> guard3 g PHASE_STABLE"
  by (simp_all add: guard1_def guard2_def guard3_def)

lemma rest_pending_no_hold: "at_rest c \<Longrightarrow> filter not_hold (pending c) = pending c"
  unfolding at_rest_def timers_ok_def
  by (auto simp add: pending_def not_hold_def filter_map comp_def)

lemma pending_pg_upd [simp]: "pending (c\<lparr>pg := p\<rparr>) = pending c"
  by (simp add: pending_def)

lemma pending_snapshot:
  "at_rest c \<Longrightarrow>
     pending (settle (c\<lparr>pg := p\<rparr>)) =
       pending c @ ping_glitches (c\<lparr>pg := p\<rparr>) @ phase_glitches (c\<lparr>pg := p\<rparr>)"
  using pending_settle [OF rest_snapshot, of c p] rest_pending_no_hold [of c] by simp

lemma in_MODULES [simp]: "m \<in> set MODULES"
  by (cases m) (simp_all add: MODULES_def)

lemma anyModuleData_iff:
  "anyModuleData (Some g) \<longleftrightarrow> (\<exists>ob. modules g = Some ob \<and> (\<exists>k. entries ob k \<noteq> None))"
  by (auto simp add: anyModuleData_def filter_empty_conv split: option.splits)

lemma allReady_empty: "modules g = Some ob \<Longrightarrow> \<forall>m. entries ob m = None \<Longrightarrow> \<not> allReady (Some g)"
  by (simp add: allReady_def modules_or_empty_def truthy_def MODULES_def)

lemma phase_snapshot:
  "mounted c \<Longrightarrow>
   phase (step (Snapshot p) c) =
     (if phase_deps c \<noteq> (percent_dep p, modules_dep p, map_option systemReady p, phase c)
      then next_phase p (phase c) else phase c)"
  by (simp add: phase_settle phase_dep_def)

lemma glitching_fire: "mounted d \<Longrightarrow> action t = GlitchClear \<Longrightarrow> \<not> glitching (fire t d)"
  by (simp add: fire_def)



lemma clamped_same [simp]:
  "anyModuleData (Some (clamped g)) = anyModuleData (Some g)"
  "allReady (Some (clamped g)) = allReady (Some g)"
  "systemReady_of (Some (clamped g)) = systemReady_of (Some g)"
  by (simp_all add: anyModuleData_def allReady_def systemReady_of_def clamped_def modules_or_empty_def)


lemma sim_entries:
  "modules (sim_snapshot r t) =
     Some \<lparr>ref = r, entries = [SpeechSystem \<mapsto> (0.2 \<le> min 1 (t / 12000)),
                                VoiceEngine \<mapsto> (0.4 \<le> min 1 (t / 12000)),
                                KnowledgeCore \<mapsto> (0.65 \<le> min 1 (t / 12000)),
                                VisionSystem \<mapsto> (0.85 \<le> min 1 (t / 12000))]\<rparr>"
proof -
  have "foldl (\<lambda>obj (s, m). obj(m \<mapsto> (pct \<ge> s))) Map.empty stages =
      [SpeechSystem \<mapsto> (0.2 \<le> pct), VoiceEngine \<mapsto> (0.4 \<le> pct),
       KnowledgeCore \<mapsto> (0.65 \<le> pct), VisionSystem \<mapsto> (0.85 \<le> pct)]" for pct :: real
    by (simp add: stages_def)
  then show ?thesis
    by (simp only: sim_snapshot_def Let_def sim_ms_def InitProgress.simps)
qed

lemma sim_percent: "percent (sim_snapshot r t) = Some (min 1 (t / 12000))"
  by (simp add: sim_snapshot_def Let_def sim_ms_def)

lemma sim_modules_or_empty:
  "map (modules_or_empty (Some (sim_snapshot r t))) MODULES =
     map (\<lambda>s. Some (s \<le> min 1 (t / 12000))) [0.2, 0.4, 0.65, 0.85]"
  by (simp add: modules_or_empty_def sim_entries MODULES_def)

lemma sim_truthy:
  "map (truthy (modules_or_empty (Some (sim_snapshot r t)))) MODULES =
     map (\<lambda>s. s \<le> min 1 (t / 12000)) [0.2, 0.4, 0.65, 0.85]"
  by (simp add: modules_or_empty_def sim_entries MODULES_def truthy_def)

lemma sim_allReady: "allReady (Some (sim_snapshot r t)) = (0.85 \<le> min 1 (t / 12000))"
  by (auto simp add: allReady_def modules_or_empty_def sim_entries MODULES_def truthy_def)

lemma sim_systemReady: "systemReady (sim_snapshot r t) = (0.95 \<le> min 1 (t / 12000))"
  by (auto simp add: sim_snapshot_def Let_def stages_def sim_ms_def object_values_def MODULES_def)

lemma sim_anyModuleData: "anyModuleData (Some (sim_snapshot r t))"
  by (simp add: anyModuleData_def sim_entries MODULES_def)

lemma sim_run_stopped: "\<not> raf s \<Longrightarrow> sim_run s fs = []"
  by (induction fs) (simp_all add: sim_frame_def)

lemma first_commit_frame [simp]:
  "pg (first_commit c) = pg c" "mounted (first_commit c) = mounted c"
  by (simp_all add: first_commit_def Let_def set_timeout_def)

lemma mount_frame [simp]: "pg (mount p) = p" "mounted (mount p)"
  by (simp_all add: mount_def init_comp_def)

lemma phase_mount: "phase (mount p) = next_phase p PHASE_AWAKENING"
proof -
  let ?c = "first_commit (init_comp p)"
  have a: "phase ?c = next_phase p PHASE_AWAKENING"
    by (simp add: first_commit_def Let_def phase_phase_effect set_timeout_def init_comp_def)
  have b: "pg ?c = p" by (simp add: init_comp_def)
  show ?thesis
    unfolding mount_def by (simp only: phase_settle a b next_phase_idem if_cancel)
qed

lemma next_phase_sim:
  "next_phase (Some (sim_snapshot r t)) p =
     (if 0.85 \<le> min 1 (t / 12000) then PHASE_STABLE
      else if p = PHASE_AWAKENING \<or> p = PHASE_ACTIVATION then PHASE_MODULES else p)"
  by (cases p)
     (auto simp add: next_phase_def sim_anyModuleData sim_allReady systemReady_of_def sim_systemReady)

lemma sim_step_not_activation:
  "phase c \<noteq> PHASE_ACTIVATION \<Longrightarrow> phase (step (as_event e) c) \<noteq> PHASE_ACTIVATION"
  by (cases e) (simp_all add: phase_settle next_phase_sim)

lemma sim_fold_not_activation:
  "phase c \<noteq> PHASE_ACTIVATION \<Longrightarrow> phase (foldl (\<lambda>c e. step e c) c (map as_event fs)) \<noteq> PHASE_ACTIVATION"
  by (induction fs arbitrary: c) (simp_all add: sim_step_not_activation del: step.simps)





section \<open>C1: the phase never regresses\<close>

text \<open>
  C1. Over any sequence of events after the mount (snapshots of any content and in any
  order, time passing, the unmount), the phase of the component, read after each event, is
  non-decreasing in the order AWAKENING (1), ACTIVATION (2), MODULES (3), STABLE (4), and
  once it is STABLE it stays STABLE. The last state of the trace is the state \<open>run\<close>
  computes.
\<close>

theorem phase_never_regresses:
  "sorted (map (\<lambda>d. phase_num (phase d)) (trace_from (mount p) es)) \<and>
   (\<forall>i j. i \<le> j \<and> j < length (trace_from (mount p) es) \<and>
          phase (trace_from (mount p) es ! i) = PHASE_STABLE \<longrightarrow>
          phase (trace_from (mount p) es ! j) = PHASE_STABLE) \<and>
   last (trace_from (mount p) es) = run p es"
proof (intro conjI allI impI)
  show "sorted (map (\<lambda>d. phase_num (phase d)) (trace_from (mount p) es))"
    by (rule trace_from_sorted)
next
  fix i j
  let ?tr = "trace_from (mount p) es"
  assume a: "i \<le> j \<and> j < length ?tr \<and> phase (?tr ! i) = PHASE_STABLE"
  then have "map (\<lambda>d. phase_num (phase d)) ?tr ! i \<le> map (\<lambda>d. phase_num (phase d)) ?tr ! j"
    using trace_from_sorted [of "mount p" es] by (intro sorted_nth_mono) simp_all
  with a have "4 \<le> phase_num (phase (?tr ! j))" by simp
  then show "phase (?tr ! j) = PHASE_STABLE"
    by (cases "phase (?tr ! j)") simp_all
next
  show "last (trace_from (mount p) es) = run p es"
    by (simp add: last_trace_from run_def)
qed

theorem phase_never_regresses_witness:
  "sorted (map (\<lambda>d. phase_num (phase d)) (trace_from (mount (Some (snap False (Some 0.2) None)))
      [Snapshot (Some (snap False (Some 0.5) None)),
       Snapshot (Some (snap True (Some 0.1) None)),
       Advance 5000,
       Snapshot (Some (snap False None None))])) \<and>
   map (\<lambda>d. phase_num (phase d)) (trace_from (mount (Some (snap False (Some 0.2) None)))
      [Snapshot (Some (snap False (Some 0.5) None)),
       Snapshot (Some (snap True (Some 0.1) None)),
       Advance 5000,
       Snapshot (Some (snap False None None))]) = [2, 3, 4, 4, 4] \<and>
   phase (run (Some (snap False (Some 0.2) None))
      [Snapshot (Some (snap False (Some 0.5) None)),
       Snapshot (Some (snap True (Some 0.1) None)),
       Advance 5000,
       Snapshot (Some (snap False None None))]) = PHASE_STABLE"
proof -
  let ?p = "Some (snap False (Some 0.2) None)"
  let ?es = "[Snapshot (Some (snap False (Some 0.5) None)),
       Snapshot (Some (snap True (Some 0.1) None)),
       Advance 5000,
       Snapshot (Some (snap False None None))]"
  have e: "map (\<lambda>d. phase_num (phase d)) (trace_from (mount ?p) ?es) = [2, 3, 4, 4, 4]"
    by (simp add: eval_defs)
  have l: "phase (last (trace_from (mount ?p) ?es)) = PHASE_STABLE"
    by (simp add: eval_defs)
  from phase_never_regresses [of ?p ?es] e l show ?thesis
    by (simp del: trace_from.simps)
qed

section \<open>C2: the completion callback\<close>

text \<open>
  C2. The specification says that \<^verbatim>\<open>onDone\<close> is invoked exactly once, between
  2500 ms and 3300 ms after the entry into STABLE. In the code it is never invoked: the run of the phase
  effect that enters STABLE returns \<^verbatim>\<open>() => clearTimeout(t)\<close>, its
  \<^verbatim>\<open>setPhase(PHASE.STABLE)\<close> makes React render again, \<^verbatim>\<open>phase\<close> is a
  dependency of the effect, so React runs that cleanup before it runs the effect again, and
  the new run (with \<^verbatim>\<open>phase === PHASE.STABLE\<close>) starts no timer. So, after every
  event of every life of the component: \<^verbatim>\<open>onDone\<close> has not been called,
  \<^verbatim>\<open>fadeOut\<close> is false, and neither \<^verbatim>\<open>t\<close> nor \<^verbatim>\<open>t2\<close> is pending.
\<close>

theorem onDone_never_invoked:
  "OnDone \<notin> set (outputs (run p es)) \<and> \<not> fadeOut (run p es) \<and>
   filter (\<lambda>t. action t = Hold \<or> action t = Done) (timers (run p es)) = []"
proof -
  have r: "at_rest (run p es)" by (rule rest_run)
  then have "\<forall>t \<in> set (timers (run p es)). action t \<noteq> Hold \<and> action t \<noteq> Done"
    unfolding at_rest_def timers_ok_def by auto
  then have "filter (\<lambda>t. action t = Hold \<or> action t = Done) (timers (run p es)) = []"
    by (auto simp add: filter_empty_conv)
  then show ?thesis using r by (simp add: at_rest_def)
qed

theorem onDone_never_invoked_witness:
  "outputs (run (Some (snap True None None)) [Advance 2500, Advance 800, Advance 10000])
     = [PlayChime, FadeOutAmbience 1200, PlayAmbience] \<and>
   phase (run (Some (snap True None None)) [Advance 2500, Advance 800, Advance 10000]) = PHASE_STABLE \<and>
   now (run (Some (snap True None None)) [Advance 2500, Advance 800, Advance 10000]) = 13300 \<and>
   timers (run (Some (snap True None None)) [Advance 2500, Advance 800, Advance 10000]) = [] \<and>
   OnDone \<notin> set (outputs (run (Some (snap True None None)) [Advance 2500, Advance 800, Advance 10000])) \<and>
   \<not> fadeOut (run (Some (snap True None None)) [Advance 2500, Advance 800, Advance 10000]) \<and>
   phase (run None (map as_event [Pass 6000, Frame 0 6000, Pass 6000, Frame 1 12000, Pass 5000]))
     = PHASE_STABLE \<and>
   OnDone \<notin> set (outputs (run None
     (map as_event [Pass 6000, Frame 0 6000, Pass 6000, Frame 1 12000, Pass 5000])))"
proof -
  let ?r = "run (Some (snap True None None)) [Advance 2500, Advance 800, Advance 10000]"
  let ?fs = "map as_event [Pass 6000, Frame 0 6000, Pass 6000, Frame 1 12000, Pass 5000]"
  have e: "outputs ?r = [PlayChime, FadeOutAmbience 1200, PlayAmbience]"
    by (simp add: eval_defs)
  have p: "phase ?r = PHASE_STABLE"
    by (simp add: eval_defs)
  have n: "now ?r = 13300" "timers ?r = []"
    by (simp_all add: eval_defs)
  have s: "phase (run None ?fs) = PHASE_STABLE"
    by (simp add: eval_defs)
  from onDone_never_invoked [of "Some (snap True None None)" "[Advance 2500, Advance 800, Advance 10000]"]
       onDone_never_invoked [of None ?fs] e p n s
  show ?thesis by (simp del: list.map as_event.simps)
qed

section \<open>C3: the module-ready cue\<close>




section \<open>C4: snapshots after STABLE\<close>




section \<open>C5: an empty modules object\<close>

text \<open>
  C5. The specification says that a \<^verbatim>\<open>modules\<close> object that is present but empty
  advances the phase to MODULES. The guard is
  \<^verbatim>\<open>!!pg?.modules && Object.keys(pg.modules).length > 0\<close>. As amended: for a mounted
  component in AWAKENING or ACTIVATION and a snapshot with a \<^verbatim>\<open>modules\<close> object,
  an object without keys, with \<^verbatim>\<open>percent\<close> at most 0.30 and \<^verbatim>\<open>systemReady\<close>
  false, does not trigger rule 2 and leaves the phase in AWAKENING or ACTIVATION; an object
  with at least one key, whatever its value, that is not the object of the previous render
  takes the phase to MODULES or beyond.
\<close>

theorem empty_modules_object_is_no_trigger:
  assumes "mounted (run q es)" and "phase_num (phase (run q es)) \<le> 2" and "modules g = Some ob"
  shows "((\<forall>m. entries ob m = None) \<and> pct_of (Some g) \<le> 0.3 \<and> \<not> systemReady g \<longrightarrow>
            \<not> anyModuleData (Some g) \<and>
            phase_num (phase (run q (es @ [Snapshot (Some g)]))) \<le> 2) \<and>
         ((\<exists>k. entries ob k \<noteq> None) \<and> modules_dep (pg (run q es)) \<noteq> Some (ref ob) \<longrightarrow>
            anyModuleData (Some g) \<and>
            3 \<le> phase_num (phase (run q (es @ [Snapshot (Some g)]))))"
proof (intro conjI impI)
  assume a: "(\<forall>m. entries ob m = None) \<and> pct_of (Some g) \<le> 0.3 \<and> \<not> systemReady g"
  show n: "\<not> anyModuleData (Some g)"
    using a assms(3) by (simp add: anyModuleData_iff)
  have "\<not> allReady (Some g)"
    using a assms(3) by (simp add: allReady_empty)
  then have "phase_num (next_phase (Some g) (phase (run q es))) \<le> 2"
    using a n assms(2) by (simp add: next_phase_def systemReady_of_def)
  then show "phase_num (phase (run q (es @ [Snapshot (Some g)]))) \<le> 2"
    using assms(1,2) by (simp add: run_snoc phase_snapshot del: step.simps)
next
  assume b: "(\<exists>k. entries ob k \<noteq> None) \<and> modules_dep (pg (run q es)) \<noteq> Some (ref ob)"
  show y: "anyModuleData (Some g)"
    using b assms(3) by (simp add: anyModuleData_iff)
  have "at_rest (run q es)" by (rule rest_run)
  then have "phase_deps (run q es) = phase_dep (run q es)"
    using assms(1) by (simp add: at_rest_def)
  then have "phase_deps (run q es) \<noteq> (percent_dep (Some g), modules_dep (Some g), map_option systemReady (Some g), phase (run q es))"
    using b assms(3) by (simp add: phase_dep_def modules_dep_def)
  moreover have "3 \<le> phase_num (next_phase (Some g) (phase (run q es)))"
    using y assms(2) by (simp add: next_phase_def)
  ultimately show "3 \<le> phase_num (phase (run q (es @ [Snapshot (Some g)])))"
    using assms(1) by (simp add: run_snoc phase_snapshot del: step.simps)
qed

theorem empty_modules_object_is_no_trigger_witness:
  "mounted (run (Some (snap False (Some 0.05) None)) []) \<and>
   phase_num (phase (run (Some (snap False (Some 0.05) None)) [])) \<le> 2 \<and>
   \<not> anyModuleData (Some (snap False (Some 0.1) (Some \<lparr>ref = 1, entries = Map.empty\<rparr>))) \<and>
   phase_num (phase (run (Some (snap False (Some 0.05) None))
      [Snapshot (Some (snap False (Some 0.1) (Some \<lparr>ref = 1, entries = Map.empty\<rparr>)))])) \<le> 2 \<and>
   3 \<le> phase_num (phase (run (Some (snap False (Some 0.05) None))
      [Snapshot (Some (snap False (Some 0.1) (Some \<lparr>ref = 1, entries = [VisionSystem \<mapsto> False]\<rparr>)))]))"
proof -
  let ?q = "Some (snap False (Some 0.05) None)"
  let ?e = "\<lparr>ref = 1, entries = Map.empty\<rparr>"
  let ?k = "\<lparr>ref = 1, entries = [VisionSystem \<mapsto> False]\<rparr>"
  have m: "mounted (run ?q [])" by (simp add: eval_defs)
  have p: "phase_num (phase (run ?q [])) \<le> 2" by (simp add: eval_defs)
  have d: "modules_dep (pg (run ?q [])) \<noteq> Some (ref ?k)" by (simp add: eval_defs)
  have k: "\<exists>k. entries ?k k \<noteq> None" by (rule exI [of _ VisionSystem]) simp
  from empty_modules_object_is_no_trigger [OF m p, of "snap False (Some 0.1) (Some ?e)" ?e]
       empty_modules_object_is_no_trigger [OF m p, of "snap False (Some 0.1) (Some ?k)" ?k]
       m p d k
  show ?thesis by (simp add: pct_of_def)
qed

text \<open>An empty object, \<^verbatim>\<open>percent\<close> 0.10: the phase stays AWAKENING.\<close>

theorem empty_modules_object_counterexample:
  "phase (run (Some (snap False (Some 0.05) None)) []) = PHASE_AWAKENING \<and>
   phase (run (Some (snap False (Some 0.05) None))
      [Snapshot (Some (snap False (Some 0.1) (Some \<lparr>ref = 1, entries = Map.empty\<rparr>)))])
     = PHASE_AWAKENING \<and>
   phase (run (Some (snap False (Some 0.1) (Some \<lparr>ref = 1, entries = Map.empty\<rparr>))) [])
     = PHASE_AWAKENING"
  by (simp add: eval_defs)

section \<open>C6: what the unmount cancels\<close>




section \<open>C7: the simulator\<close>

text \<open>
  C7. A simulated snapshot at the elapsed time \<open>t\<close> has the fraction \<open>min 1 (t / 12000)\<close>,
  holds all four modules, module \<open>i\<close> being ready exactly when the fraction has reached
  0.20, 0.40, 0.65 and 0.85 in the order of \<^verbatim>\<open>MODULES\<close>; \<^verbatim>\<open>systemReady\<close> is true
  exactly when the fraction is at least 0.95 and all modules are ready, that is from
  \<open>t = 11400\<close> on, before the 12000 of the whole duration. A frame before the fraction
  reaches 1 requests the next one; the frame at which the fraction is 1 gives the last
  value, with \<^verbatim>\<open>systemReady\<close> true, and nothing is produced after it.
\<close>

theorem simulator_checkpoints:
  "percent (sim_snapshot r t) = Some (min 1 (t / 12000)) \<and>
   map (modules_or_empty (Some (sim_snapshot r t))) MODULES =
     map (\<lambda>s. Some (s \<le> min 1 (t / 12000))) [0.2, 0.4, 0.65, 0.85] \<and>
   systemReady (sim_snapshot r t) =
     (0.95 \<le> min 1 (t / 12000) \<and> allReady (Some (sim_snapshot r t))) \<and>
   systemReady (sim_snapshot r t) = (11400 \<le> t) \<and>
   (11400 \<le> t \<and> t < 12000 \<longrightarrow> systemReady (sim_snapshot r t) \<and> min 1 (t / 12000) < 1) \<and>
   (raf s \<and> f - start s < 12000 \<longrightarrow>
      sim_run s (f # fs) =
        sim_snapshot (allocated s) (f - start s) #
        sim_run (s\<lparr>raf := True, allocated := Suc (allocated s)\<rparr>) fs) \<and>
   (raf s \<and> 12000 \<le> f - start s \<longrightarrow>
      sim_run s (f # fs) = [sim_snapshot (allocated s) (f - start s)] \<and>
      percent (sim_snapshot (allocated s) (f - start s)) = Some 1 \<and>
      systemReady (sim_snapshot (allocated s) (f - start s))) \<and>
   (\<not> raf s \<longrightarrow> sim_run s fs = [])"
proof -
  have a: "systemReady (sim_snapshot r t) = (11400 \<le> t)" for r t
    by (auto simp add: sim_systemReady min_def)
  have b: "systemReady (sim_snapshot r t) = (0.95 \<le> min 1 (t / 12000) \<and> allReady (Some (sim_snapshot r t)))"
    by (auto simp add: sim_systemReady sim_allReady)
  have c: "sim_run s (f # fs) =
        sim_snapshot (allocated s) (f - start s) #
        sim_run (s\<lparr>raf := True, allocated := Suc (allocated s)\<rparr>) fs"
    if "raf s \<and> f - start s < 12000"
    using that by (simp add: sim_frame_def Let_def sim_ms_def)
  have d: "sim_run s (f # fs) = [sim_snapshot (allocated s) (f - start s)] \<and>
      percent (sim_snapshot (allocated s) (f - start s)) = Some 1 \<and>
      systemReady (sim_snapshot (allocated s) (f - start s))"
    if "raf s \<and> 12000 \<le> f - start s"
    using that by (simp add: sim_frame_def Let_def sim_ms_def sim_run_stopped sim_percent a)
  show ?thesis
    using a b c d sim_run_stopped by (simp add: sim_percent sim_modules_or_empty)
qed

theorem simulator_checkpoints_witness:
  "systemReady (sim_snapshot 0 11400) \<and>
   min 1 (11400 / 12000) < (1::real) \<and>
   sim_run (sim_start 0) [6000, 12000, 12016] = [sim_snapshot 0 6000, sim_snapshot 1 12000] \<and>
   percent (sim_snapshot 1 12000) = Some 1 \<and>
   systemReady (sim_snapshot 1 12000) \<and>
   map (modules_or_empty (Some (sim_snapshot 0 6000))) MODULES = [Some True, Some True, Some False, Some False]"
proof -
  let ?s0 = "sim_start 0"
  let ?s1 = "?s0\<lparr>raf := True, allocated := Suc (allocated ?s0)\<rparr>"
  note T = simulator_checkpoints [of 0 11400 ?s0 6000 "[12000, 12016]"]
  note U = simulator_checkpoints [of 0 6000 ?s1 12000 "[12016]"]
  have a: "raf ?s0 \<and> 6000 - start ?s0 < 12000" by (simp add: sim_start_def)
  have b: "raf ?s1 \<and> 12000 \<le> 12000 - start ?s1" by (simp add: sim_start_def)
  have c: "allocated ?s0 = 0" "allocated ?s1 = 1" "start ?s0 = 0" "start ?s1 = 0"
    by (simp_all add: sim_start_def)
  from T have "(11400::real) \<le> 11400 \<and> (11400::real) < 12000 \<longrightarrow>
      systemReady (sim_snapshot 0 11400) \<and> min 1 (11400 / 12000) < (1::real)"
    by blast
  then have 1: "systemReady (sim_snapshot 0 11400) \<and> min 1 (11400 / 12000) < (1::real)"
    by simp
  from T a have "sim_run ?s0 (6000 # [12000, 12016]) =
      sim_snapshot (allocated ?s0) (6000 - start ?s0) # sim_run ?s1 [12000, 12016]"
    by blast
  then have 2: "sim_run ?s0 [6000, 12000, 12016] = sim_snapshot 0 6000 # sim_run ?s1 [12000, 12016]"
    by (simp add: sim_start_def del: sim_run.simps)
  from U b have "sim_run ?s1 (12000 # [12016]) = [sim_snapshot (allocated ?s1) (12000 - start ?s1)] \<and>
      percent (sim_snapshot (allocated ?s1) (12000 - start ?s1)) = Some 1 \<and>
      systemReady (sim_snapshot (allocated ?s1) (12000 - start ?s1))"
    by blast
  then have 3: "sim_run ?s1 [12000, 12016] = [sim_snapshot 1 12000] \<and>
      percent (sim_snapshot 1 12000) = Some 1 \<and> systemReady (sim_snapshot 1 12000)"
    by (simp add: sim_start_def del: sim_run.simps)
  from U have "map (modules_or_empty (Some (sim_snapshot 0 6000))) MODULES =
      map (\<lambda>s. Some (s \<le> min 1 (6000 / 12000))) [0.2, 0.4, 0.65, 0.85 :: real]"
    by blast
  then have 4: "map (modules_or_empty (Some (sim_snapshot 0 6000))) MODULES =
      [Some True, Some True, Some False, Some False]"
    by simp
  show ?thesis using 1 2 3 4 by (simp only: simp_thms)
qed

section \<open>C8: the glitch timers\<close>

text \<open>
  C8. The specification says that a later transition resets the pending timer of the glitch
  flag.
  Every \<^verbatim>\<open>setTimeout(() => setGlitching(false), ...)\<close> is a timer of its own and
  none is ever cleared. As amended, for a snapshot given to a mounted component: the
  pending timers stay as they are and the new ones are added after them, each a glitch
  timer due 200, 300 or 500 ms later; a change of phase sets the flag and has added the
  timer due 500 ms later when the new phase is STABLE and 300 ms later otherwise; a module
  cue sets the flag and has added a timer due 200 ms later; and any glitch timer that fires
  on a mounted component clears the flag, whatever else is pending.
\<close>

theorem glitch_timers_are_independent:
  assumes "mounted (run q es)"
  shows "(\<exists>new. pending (run q (es @ [Snapshot p])) = pending (run q es) @ new \<and>
            list_all (\<lambda>x. snd x = GlitchClear \<and>
               (fst x = now (run q es) + 200 \<or> fst x = now (run q es) + 300 \<or>
                fst x = now (run q es) + 500)) new) \<and>
         (phase (run q (es @ [Snapshot p])) \<noteq> phase (run q es) \<longrightarrow>
            glitching (run q (es @ [Snapshot p])) \<and>
            (now (run q es) + (if phase (run q (es @ [Snapshot p])) = PHASE_STABLE then 500 else 300),
               GlitchClear) \<in> set (pending (run q (es @ [Snapshot p])))) \<and>
         (pings (outputs (run q (es @ [Snapshot p]))) \<noteq> pings (outputs (run q es)) \<longrightarrow>
            glitching (run q (es @ [Snapshot p])) \<and>
            (now (run q es) + 200, GlitchClear) \<in> set (pending (run q (es @ [Snapshot p])))) \<and>
         (\<forall>t d. mounted d \<and> action t = GlitchClear \<longrightarrow> \<not> glitching (fire t d))"
proof -
  let ?c = "run q es"
  let ?d = "?c\<lparr>pg := p\<rparr>"
  let ?c' = "run q (es @ [Snapshot p])"
  have r: "at_rest ?c" by (rule rest_run)
  have c': "?c' = settle ?d" using assms by (simp add: run_snoc)
  have pend: "pending ?c' = pending ?c @ ping_glitches ?d @ phase_glitches ?d"
    unfolding c' using pending_snapshot [OF r, of p] by simp
  have gl: "glitching ?c' = (glitching ?c \<or> ping_glitches ?d \<noteq> [] \<or> phase_glitches ?d \<noteq> [])"
    unfolding c' by (simp add: glitching_settle)
  have ph: "phase ?c' = (if phase_deps ?d \<noteq> phase_dep ?d then next_phase p (phase ?c) else phase ?c)"
    unfolding c' by (simp add: phase_settle)
  have out: "pings (outputs ?c') = pings (outputs ?c) @ pings (ping_calls ?d)"
    unfolding c' by (simp add: outputs_settle stable_calls_def)
  have 1: "list_all (\<lambda>x. snd x = GlitchClear \<and>
               (fst x = now ?c + 200 \<or> fst x = now ?c + 300 \<or> fst x = now ?c + 500))
             (ping_glitches ?d @ phase_glitches ?d)"
    by (auto simp add: ping_glitches_def phase_glitches_def list_all_iff)
  have 2: "glitching ?c' \<and>
       (now ?c + (if phase ?c' = PHASE_STABLE then 500 else 300), GlitchClear) \<in> set (pending ?c')"
    if "phase ?c' \<noteq> phase ?c"
  proof -
    from that ph have d: "phase_deps ?d \<noteq> phase_dep ?d" and n: "phase ?c' = next_phase p (phase ?c)"
      by (auto split: if_splits)
    from that n have "next_phase p (phase ?c) \<noteq> phase ?c" by simp
    then show ?thesis
      unfolding gl pend n using d
      by (auto simp add: phase_glitches_def next_phase_guards split: if_splits)
  qed
  have 3: "glitching ?c' \<and> (now ?c + 200, GlitchClear) \<in> set (pending ?c')"
    if "pings (outputs ?c') \<noteq> pings (outputs ?c)"
  proof -
    from that out have "ping_calls ?d \<noteq> []" by auto
    then show ?thesis
      unfolding gl pend
      by (cases "rising (prevModules ?c) (modules_or_empty p) MODULES")
         (auto simp add: ping_calls_def ping_glitches_def split: if_splits)
  qed
  show ?thesis
    using pend 1 2 3 glitching_fire by blast
qed

theorem glitch_timers_are_independent_witness:
  "mounted (run (Some (snap False (Some 0.2) None)) [Advance 250]) \<and>
   phase (run (Some (snap False (Some 0.2) None)) [Advance 250]) = PHASE_ACTIVATION \<and>
   phase (run (Some (snap False (Some 0.2) None))
      [Advance 250, Snapshot (Some (snap True (Some 0.2) None))]) = PHASE_STABLE \<and>
   glitching (run (Some (snap False (Some 0.2) None))
      [Advance 250, Snapshot (Some (snap True (Some 0.2) None))]) \<and>
   (750, GlitchClear) \<in> set (pending (run (Some (snap False (Some 0.2) None))
      [Advance 250, Snapshot (Some (snap True (Some 0.2) None))]))"
proof -
  let ?q = "Some (snap False (Some 0.2) None)"
  let ?p = "Some (snap True (Some 0.2) None)"
  have m: "mounted (run ?q [Advance 250])" by (simp add: eval_defs)
  have a: "phase (run ?q [Advance 250]) = PHASE_ACTIVATION" by (simp add: eval_defs)
  have s: "phase (run ?q [Advance 250, Snapshot ?p]) = PHASE_STABLE" by (simp add: eval_defs)
  have n: "now (run ?q [Advance 250]) = 250" by (simp add: eval_defs)
  from glitch_timers_are_independent [OF m, of ?p] m a s n show ?thesis by simp
qed

text \<open>ACTIVATION at time 0, STABLE at time 250: at time 300 the timer of the first transition
  clears the flag, 50 ms after the second, whose own timer is due at 750.\<close>

theorem early_glitch_clear_counterexample:
  "phase (run (Some (snap False (Some 0.2) None))
      [Advance 250, Snapshot (Some (snap True (Some 0.2) None))]) = PHASE_STABLE \<and>
   now (run (Some (snap False (Some 0.2) None))
      [Advance 250, Snapshot (Some (snap True (Some 0.2) None))]) = 250 \<and>
   glitching (run (Some (snap False (Some 0.2) None))
      [Advance 250, Snapshot (Some (snap True (Some 0.2) None))]) \<and>
   pending (run (Some (snap False (Some 0.2) None))
      [Advance 250, Snapshot (Some (snap True (Some 0.2) None))])
     = [(400, AmbienceStart), (300, GlitchClear), (750, GlitchClear)] \<and>
   now (run (Some (snap False (Some 0.2) None))
      [Advance 250, Snapshot (Some (snap True (Some 0.2) None)), Advance 50]) = 300 \<and>
   \<not> glitching (run (Some (snap False (Some 0.2) None))
      [Advance 250, Snapshot (Some (snap True (Some 0.2) None)), Advance 50]) \<and>
   pending (run (Some (snap False (Some 0.2) None))
      [Advance 250, Snapshot (Some (snap True (Some 0.2) None)), Advance 50])
     = [(400, AmbienceStart), (750, GlitchClear)]"
  by (simp add: eval_defs)

section \<open>C9: percent outside the unit interval\<close>



section \<open>C10: the simulated life\<close>

text \<open>
  C10. The specification says that the first simulated snapshot takes the phase from
  AWAKENING to MODULES. When the first frame comes so late that all modules are ready in it (a fraction
  of at least 0.85), the same update goes on to STABLE. As amended: every simulated
  snapshot holds all four modules, so the guard \<^verbatim>\<open>anyModuleData\<close> holds for it; a
  component without a \<^verbatim>\<open>progress\<close> prop is in AWAKENING until the first frame;
  the first frame takes it to MODULES, or to STABLE when its fraction is at least 0.85; and
  at no point of such a life is the phase ACTIVATION.
\<close>

theorem simulated_life_skips_activation:
  "list_all (\<lambda>m. modules_or_empty (Some (sim_snapshot r t)) m \<noteq> None) MODULES \<and>
   anyModuleData (Some (sim_snapshot r t)) \<and>
   phase (run None []) = PHASE_AWAKENING \<and>
   phase (run None [as_event (Frame r t)]) =
     (if 0.85 \<le> min 1 (t / 12000) then PHASE_STABLE else PHASE_MODULES) \<and>
   phase (run None (map as_event fs)) \<noteq> PHASE_ACTIVATION"
proof -
  have m: "phase (mount None) = PHASE_AWAKENING"
    by (simp add: phase_mount next_phase_def pct_of_def anyModuleData_def systemReady_of_def allReady_def
        modules_or_empty_def MODULES_def truthy_def)
  have k: "list_all (\<lambda>m. modules_or_empty (Some (sim_snapshot r t)) m \<noteq> None) MODULES"
    by (simp add: modules_or_empty_def sim_entries MODULES_def)
  have "at_rest (mount None)" by (rule rest_mount)
  then have d: "phase_deps (mount None) = (None, None, None, PHASE_AWAKENING)"
    by (simp add: at_rest_def phase_dep_def m percent_dep_def modules_dep_def)
  have f: "phase (run None [as_event (Frame r t)]) =
     (if 0.85 \<le> min 1 (t / 12000) then PHASE_STABLE else PHASE_MODULES)"
    by (simp add: run_def phase_settle phase_dep_def d m next_phase_sim modules_dep_def sim_entries)
  have n: "phase (run None (map as_event fs)) \<noteq> PHASE_ACTIVATION"
    unfolding run_def using m by (intro sim_fold_not_activation) simp
  show ?thesis using k f n m by (simp add: sim_anyModuleData run_def)
qed

theorem simulated_life_skips_activation_witness:
  "phase (run None [as_event (Frame 0 16)]) = PHASE_MODULES \<and>
   phase (run None (map as_event [Frame 0 2000, Pass 4000, Frame 1 6000, Pass 400, Frame 2 10400]))
     \<noteq> PHASE_ACTIVATION \<and>
   percent (sim_snapshot 0 2000) = Some (1 / 6)"
proof -
  have p: "percent (sim_snapshot 0 2000) = Some (1 / 6)" by (simp add: sim_percent)
  from simulated_life_skips_activation [of 0 16 "[Frame 0 2000, Pass 4000, Frame 1 6000, Pass 400, Frame 2 10400]"] p
  show ?thesis by simp
qed

text \<open>A first frame at the end of the duration: the first update ends in STABLE.\<close>

theorem late_first_frame_counterexample:
  "phase (run None []) = PHASE_AWAKENING \<and>
   phase (run None [as_event (Frame 0 12000)]) = PHASE_STABLE"
  by (simp add: eval_defs)

end
